theory Spec2Isabelle
  imports Main "HOL-Library.Word"
begin

section \<open>Active health checks of a TChannel connection (health.go)\<close>

text \<open>
  The development embeds \<^verbatim>\<open>health.go\<close>: the value type \<^verbatim>\<open>HealthCheckOptions\<close> with its
  methods \<^verbatim>\<open>enabled\<close> and \<^verbatim>\<open>withDefaults\<close>, the goroutine body \<^verbatim>\<open>healthCheck\<close> and
  \<^verbatim>\<open>stophealthCheck\<close>.
\<close>

subsection \<open>Machine integers and durations\<close>

text \<open>
  \<^verbatim>\<open>time.Duration\<close> is an \<^verbatim>\<open>int64\<close> counting nanoseconds. Go's \<^verbatim>\<open>int\<close> is taken at its
  width on 64-bit platforms. Both are words read in two's complement: comparisons are the
  signed ones (\<open>word_sle\<close>, \<open>word_sless\<close>) and \<open>+\<close> wraps around.
\<close>

type_synonym Duration = "64 word"
type_synonym go_int = "64 word"

definition time_Second :: Duration where
  "time_Second = 1000000000"

definition defaultHealthCheckTimeout :: Duration where
  "defaultHealthCheckTimeout = time_Second"

definition defaultHealthCheckFailuresToClose :: go_int where
  "defaultHealthCheckFailuresToClose = 5"

subsection \<open>HealthCheckOptions\<close>

record HealthCheckOptions =
  Interval :: Duration
  Timeout :: Duration
  FailuresToClose :: go_int

text \<open>Lines 52 to 54.\<close>

definition enabled :: "HealthCheckOptions \<Rightarrow> bool" where
  "enabled hco = (0 <s Interval hco)"

text \<open>
  Lines 56 to 64. \<^verbatim>\<open>withDefaults\<close> has a value receiver: \<^verbatim>\<open>hco\<close> is the callee's copy,
  the two assignments update that copy, and the copy is returned.
\<close>

definition withDefaults :: "HealthCheckOptions \<Rightarrow> HealthCheckOptions" where
  "withDefaults hco =
     (let hco1 = (if Timeout hco = 0
                  then hco\<lparr>Timeout := defaultHealthCheckTimeout\<rparr> else hco);
          hco2 = (if FailuresToClose hco1 = 0
                  then hco1\<lparr>FailuresToClose := defaultHealthCheckFailuresToClose\<rparr> else hco1)
      in hco2)"

subsection \<open>Errors, log fields and the connection\<close>

text \<open>
  An \<^verbatim>\<open>error\<close> value is the package's sentinel \<^verbatim>\<open>ErrInvalidConnectionState\<close>, some other
  error (with its message), or the result of \<^verbatim>\<open>fmt.Errorf(format, err)\<close>, kept as the
  format and its argument. \<^verbatim>\<open>err == ErrInvalidConnectionState\<close> is equality with the first
  constructor. The sentinel, \<^verbatim>\<open>LogField\<close> and \<^verbatim>\<open>ErrField\<close> are declared elsewhere in the
  package; only what \<^verbatim>\<open>health.go\<close> does with them is used here.
\<close>

datatype go_error =
    ErrInvalidConnectionState
  | ErrOther string
  | Errorf string go_error

text \<open>
  A \<^verbatim>\<open>LogField\<close> is a key with a value; \<^verbatim>\<open>ErrField(err)\<close> is the field that carries an
  error.
\<close>

datatype LogField =
    LogField string string
  | ErrField go_error

text \<open>
  Modelled from the spec: the collaborators of the connection (\<^verbatim>\<open>ping\<close>,
  \<^verbatim>\<open>connectionError\<close>, \<^verbatim>\<open>close\<close>, \<^verbatim>\<open>log.Debug\<close>) are not part of \<^verbatim>\<open>health.go\<close>. Section 6
  of the specification gives them as a narrow interface (probe, reportError,
  closeConnection, debugLog); a call of one of them is recorded, with its arguments, in the
  connection's trace, in program order. The result of a probe is an input of the run.
  The last event records \<^verbatim>\<open>close(c.healthCheckQuit)\<close>, the builtin on the quit channel.
\<close>

datatype event =
    Ping nat Duration
  | ConnectionError string go_error
  | Close "LogField list"
  | LogDebug string
  | CloseQuit

datatype chan_state = ChanOpen | ChanClosed

record ConnectionOptions =
  HealthChecks :: HealthCheckOptions

record Connection =
  opts :: ConnectionOptions
  healthCheckStopped :: bool
  healthCheckQuit :: chan_state
  trace :: "event list"

definition record_event :: "event \<Rightarrow> Connection \<Rightarrow> Connection" where
  "record_event e c = c\<lparr>trace := trace c @ [e]\<rparr>"

text \<open>The calls of \<^verbatim>\<open>c.close\<close> the trace holds, with their log fields.\<close>

fun closes :: "event list \<Rightarrow> LogField list list" where
  "closes [] = []"
| "closes (Close fs # es) = fs # closes es"
| "closes (_ # es) = closes es"

text \<open>The errors reported through \<^verbatim>\<open>c.connectionError\<close>.\<close>

fun reports :: "event list \<Rightarrow> (string \<times> go_error) list" where
  "reports [] = []"
| "reports (ConnectionError site e # es) = (site, e) # reports es"
| "reports (_ # es) = reports es"

text \<open>The probes issued: the context of each and its timeout.\<close>

fun pings :: "event list \<Rightarrow> (nat \<times> Duration) list" where
  "pings [] = []"
| "pings (Ping k d # es) = (k, d) # pings es"
| "pings (_ # es) = pings es"

text \<open>How often the quit channel was closed.\<close>

fun quit_closes :: "event list \<Rightarrow> nat" where
  "quit_closes [] = 0"
| "quit_closes (CloseQuit # es) = Suc (quit_closes es)"
| "quit_closes (_ # es) = quit_closes es"

subsection \<open>The goroutine's frame and the resources it holds\<close>

text \<open>
  \<^verbatim>\<open>healthCheck\<close> owns a ticker and, for every probe, a context with a timeout. A
  \<^verbatim>\<open>defer\<close> pushes a call on the frame's stack of deferred calls; they run, last pushed
  first, when the function returns. \<open>live_ctxs\<close> holds the contexts made by
  \<^verbatim>\<open>context.WithTimeout\<close> whose \<^verbatim>\<open>cancel\<close> has not been called yet.
\<close>

datatype deferred = TickerStop | Cancel nat

datatype ticker_state = NoTicker | Ticking Duration | TickerStopped

record hc_state =
  conn :: Connection
  consecutiveFailures :: go_int
  defers :: "deferred list"
  ticker :: ticker_state
  live_ctxs :: "nat list"
  ctx_count :: nat

text \<open>
  Where the goroutine is: \<open>Waiting\<close> in the \<^verbatim>\<open>select\<close> at the head of the loop,
  \<open>Returned\<close>, or \<open>Panicked\<close>.
\<close>

datatype status = Waiting | Returned | Panicked

text \<open>
  What wakes the \<^verbatim>\<open>select\<close> up: the quit channel, or the ticker; in the second case the
  iteration goes on to \<^verbatim>\<open>c.ping(ctx)\<close>, whose result (\<open>None\<close> for \<^verbatim>\<open>nil\<close>) comes with
  the input.
\<close>

datatype wakeup = HealthCheckQuit | TickerC "go_error option"

text \<open>\<^verbatim>\<open>time.NewTicker(d)\<close> panics unless \<^verbatim>\<open>d > 0\<close>.\<close>

definition time_NewTicker :: "Duration \<Rightarrow> ticker_state option" where
  "time_NewTicker d = (if 0 <s d then Some (Ticking d) else None)"

definition go_defer :: "deferred \<Rightarrow> hc_state \<Rightarrow> hc_state" where
  "go_defer d s = s\<lparr>defers := d # defers s\<rparr>"

text \<open>
  \<^verbatim>\<open>context.WithTimeout(context.Background(), d)\<close>: a fresh context, known by its number
  and its timeout, live until cancelled.
\<close>

definition context_WithTimeout :: "Duration \<Rightarrow> hc_state \<Rightarrow> (nat \<times> Duration) \<times> hc_state" where
  "context_WithTimeout d s =
     ((ctx_count s, d),
      s\<lparr>live_ctxs := ctx_count s # live_ctxs s, ctx_count := Suc (ctx_count s)\<rparr>)"

definition cancel :: "nat \<Rightarrow> hc_state \<Rightarrow> hc_state" where
  "cancel k s = s\<lparr>live_ctxs := removeAll k (live_ctxs s)\<rparr>"

definition ticker_Stop :: "hc_state \<Rightarrow> hc_state" where
  "ticker_Stop s = s\<lparr>ticker := TickerStopped\<rparr>"

fun run_deferred :: "deferred list \<Rightarrow> hc_state \<Rightarrow> hc_state" where
  "run_deferred [] s = s"
| "run_deferred (TickerStop # ds) s = run_deferred ds (ticker_Stop s)"
| "run_deferred (Cancel k # ds) s = run_deferred ds (cancel k s)"

text \<open>A \<^verbatim>\<open>return\<close>: the deferred calls run, and the goroutine is over.\<close>

definition return_from :: "hc_state \<Rightarrow> status \<times> hc_state" where
  "return_from s = (Returned, run_deferred (defers s) (s\<lparr>defers := []\<rparr>))"

text \<open>
  Modelled from the spec: \<^verbatim>\<open>c.ping\<close>, \<^verbatim>\<open>c.connectionError\<close> and \<^verbatim>\<open>c.close\<close> are methods
  of \<^verbatim>\<open>Connection\<close> whose bodies are outside \<^verbatim>\<open>health.go\<close>. Each is the interface call of
  section 6 of the specification (probe, reportError, closeConnection): the call is
  appended to the connection's trace with its arguments, and has no other effect on the
  goroutine's frame.
\<close>

definition on_conn :: "event \<Rightarrow> hc_state \<Rightarrow> hc_state" where
  "on_conn e s = s\<lparr>conn := record_event e (conn s)\<rparr>"

definition ping :: "nat \<times> Duration \<Rightarrow> hc_state \<Rightarrow> hc_state" where
  "ping ctx s = on_conn (Ping (fst ctx) (snd ctx)) s"

definition connectionError :: "string \<Rightarrow> go_error \<Rightarrow> hc_state \<Rightarrow> hc_state" where
  "connectionError site err s = on_conn (ConnectionError site err) s"

definition close :: "LogField list \<Rightarrow> hc_state \<Rightarrow> hc_state" where
  "close fs s = on_conn (Close fs) s"

subsection \<open>healthCheck\<close>

text \<open>
  One pass through the body of the \<^verbatim>\<open>for\<close> loop (lines 76 to 106), from the \<^verbatim>\<open>select\<close>
  on. The result \<open>Waiting\<close> is the loop going round (by \<^verbatim>\<open>continue\<close> or by reaching the
  end of the body).
\<close>

definition iteration :: "HealthCheckOptions \<Rightarrow> hc_state \<Rightarrow> wakeup \<Rightarrow> status \<times> hc_state" where
  "iteration hc_opts s w =
     (case w of
        HealthCheckQuit \<Rightarrow> return_from s
      | TickerC err \<Rightarrow>
          (let (ctx, s) = context_WithTimeout (Timeout hc_opts) s;
               s = go_defer (Cancel (fst ctx)) s;
               s = ping ctx s
           in case err of
                None \<Rightarrow> (Waiting, s\<lparr>consecutiveFailures := 0\<rparr>)
              | Some e \<Rightarrow>
                  if e = ErrInvalidConnectionState then return_from s
                  else
                    let s = connectionError ''healthCheck'' (Errorf ''healthCheck failed: %v'' e) s;
                        s = s\<lparr>consecutiveFailures := consecutiveFailures s + 1\<rparr>
                    in if FailuresToClose hc_opts \<le>s consecutiveFailures s
                       then return_from
                              (close [LogField ''reason'' ''health check failure'', ErrField e] s)
                       else (Waiting, s)))"

text \<open>
  The loop, run on the wake-ups the goroutine gets. When they are used up the goroutine
  is blocked in the \<^verbatim>\<open>select\<close>; after a \<^verbatim>\<open>return\<close> nothing more is looked at.
\<close>

fun loop :: "HealthCheckOptions \<Rightarrow> hc_state \<Rightarrow> wakeup list \<Rightarrow> status \<times> hc_state" where
  "loop hc_opts s [] = (Waiting, s)"
| "loop hc_opts s (w # ws) =
     (case iteration hc_opts s w of
        (Waiting, s') \<Rightarrow> loop hc_opts s' ws
      | r \<Rightarrow> r)"

text \<open>
  The function (lines 68 to 108): the options are read from the connection once, the
  ticker is made and its \<^verbatim>\<open>Stop\<close> deferred, the counter starts at 0, and the loop runs.
  \<^verbatim>\<open>connID\<close> is a parameter and nothing more.
\<close>

definition enter :: "Connection \<Rightarrow> hc_state" where
  "enter c = \<lparr>conn = c, consecutiveFailures = 0, defers = [], ticker = NoTicker,
              live_ctxs = [], ctx_count = 0\<rparr>"

definition healthCheck :: "32 word \<Rightarrow> Connection \<Rightarrow> wakeup list \<Rightarrow> status \<times> hc_state" where
  "healthCheck connID c ws =
     (let hc_opts = HealthChecks (opts c);
          s = enter c
      in case time_NewTicker (Interval hc_opts) of
           None \<Rightarrow> (Panicked, s)
         | Some t \<Rightarrow>
             (let s = s\<lparr>ticker := t\<rparr>;
                  s = go_defer TickerStop s;
                  s = s\<lparr>consecutiveFailures := 0\<rparr>
              in loop hc_opts s ws))"

subsection \<open>stophealthCheck\<close>

text \<open>
  Lines 110 to 118. \<^verbatim>\<open>c.healthCheckStopped.Swap(true)\<close> stores \<^verbatim>\<open>true\<close> and yields the old
  value, in one atomic step. \<^verbatim>\<open>close\<close> of a channel that is closed already panics
  (\<open>None\<close>).
\<close>

definition Swap :: "bool \<Rightarrow> Connection \<Rightarrow> bool \<times> Connection" where
  "Swap new c = (healthCheckStopped c, c\<lparr>healthCheckStopped := new\<rparr>)"

definition close_chan :: "Connection \<Rightarrow> Connection option" where
  "close_chan c =
     (case healthCheckQuit c of
        ChanClosed \<Rightarrow> None
      | ChanOpen \<Rightarrow> Some (record_event CloseQuit (c\<lparr>healthCheckQuit := ChanClosed\<rparr>)))"

definition stophealthCheck :: "Connection \<Rightarrow> Connection option" where
  "stophealthCheck c =
     (let (old, c) = Swap True c
      in if old then Some c
         else close_chan (record_event (LogDebug ''Stopping health checks.'') c))"

text \<open>\<open>n\<close> calls in a row; a panic ends the sequence.\<close>

fun stop_times :: "nat \<Rightarrow> Connection \<Rightarrow> Connection option" where
  "stop_times 0 c = Some c"
| "stop_times (Suc n) c =
     (case stophealthCheck c of None \<Rightarrow> None | Some c' \<Rightarrow> stop_times n c')"

text \<open>
  Calls from several goroutines. A call is at one of four places: before the \<^verbatim>\<open>Swap\<close>,
  before \<^verbatim>\<open>c.log.Debug\<close>, before \<^verbatim>\<open>close(c.healthCheckQuit)\<close>, or returned. A step takes one
  call to its next place; the \<^verbatim>\<open>Swap\<close> is one step. A schedule names, step by step, the
  call that moves.
\<close>

datatype stop_pc = AtSwap | AtLog | AtClose | StopDone

definition stop_step :: "Connection \<Rightarrow> stop_pc \<Rightarrow> (Connection \<times> stop_pc) option" where
  "stop_step c pc =
     (case pc of
        AtSwap \<Rightarrow> (let (old, c) = Swap True c in Some (c, if old then StopDone else AtLog))
      | AtLog \<Rightarrow> Some (record_event (LogDebug ''Stopping health checks.'') c, AtClose)
      | AtClose \<Rightarrow> (case close_chan c of None \<Rightarrow> None | Some c \<Rightarrow> Some (c, StopDone))
      | StopDone \<Rightarrow> Some (c, StopDone))"

fun interleave :: "nat list \<Rightarrow> Connection \<times> stop_pc list \<Rightarrow> (Connection \<times> stop_pc list) option" where
  "interleave [] st = Some st"
| "interleave (i # sched) (c, pcs) =
     (if i < length pcs then
        (case stop_step c (pcs ! i) of
           None \<Rightarrow> None
         | Some (c', pc') \<Rightarrow> interleave sched (c', pcs[i := pc']))
      else interleave sched (c, pcs))"

subsection \<open>Notions used in the statements\<close>

text \<open>
  The frame after lines 82 to 86 of an iteration (context made, its \<^verbatim>\<open>cancel\<close> deferred,
  probe sent), and after lines 98 and 99 (failure reported, counter incremented).
\<close>

definition after_ping :: "HealthCheckOptions \<Rightarrow> hc_state \<Rightarrow> hc_state" where
  "after_ping hc_opts s =
     ping (ctx_count s, Timeout hc_opts)
       (go_defer (Cancel (ctx_count s)) (snd (context_WithTimeout (Timeout hc_opts) s)))"

definition after_failure :: "HealthCheckOptions \<Rightarrow> go_error \<Rightarrow> hc_state \<Rightarrow> hc_state" where
  "after_failure hc_opts e s =
     (connectionError ''healthCheck'' (Errorf ''healthCheck failed: %v'' e) (after_ping hc_opts s))
       \<lparr>consecutiveFailures := consecutiveFailures s + 1\<rparr>"

text \<open>
  A wake-up after which the loop can go round: a tick whose probe did not end in the
  sentinel. A failure is a tick whose probe ended in an error other than the sentinel.
\<close>

fun proceeds :: "wakeup \<Rightarrow> bool" where
  "proceeds HealthCheckQuit = False"
| "proceeds (TickerC None) = True"
| "proceeds (TickerC (Some e)) = (e \<noteq> ErrInvalidConnectionState)"

fun is_failure :: "wakeup \<Rightarrow> bool" where
  "is_failure (TickerC (Some e)) = (e \<noteq> ErrInvalidConnectionState)"
| "is_failure _ = False"

text \<open>
  The failures since the most recent successful probe, or since the start when no probe
  succeeded.
\<close>

definition failure_streak :: "wakeup list \<Rightarrow> nat" where
  "failure_streak ws = length (filter is_failure (takeWhile (\<lambda>w. w \<noteq> TickerC None) (rev ws)))"

text \<open>What the connection's trace shows of a run of \<^verbatim>\<open>healthCheck\<close>.\<close>

definition trace_of :: "status \<times> hc_state \<Rightarrow> event list" where
  "trace_of r = trace (conn (snd r))"

definition counter_of :: "status \<times> hc_state \<Rightarrow> go_int" where
  "counter_of r = consecutiveFailures (snd r)"

text \<open>
  What holds of the frame whenever the goroutine, started on \<open>c\<close>, waits in the
  \<^verbatim>\<open>select\<close> after the wake-ups \<open>ws\<close>.
\<close>

definition waiting_inv :: "Connection \<Rightarrow> wakeup list \<Rightarrow> hc_state \<Rightarrow> bool" where
  "waiting_inv c ws s =
     (list_all proceeds ws
      \<and> sint (consecutiveFailures s) = int (failure_streak ws)
      \<and> (consecutiveFailures s = 0
           \<or> consecutiveFailures s <s FailuresToClose (HealthChecks (opts c)))
      \<and> defers s = map Cancel (rev [0..<length ws]) @ [TickerStop]
      \<and> live_ctxs s = rev [0..<length ws]
      \<and> ctx_count s = length ws
      \<and> ticker s = Ticking (Interval (HealthChecks (opts c)))
      \<and> closes (trace (conn s)) = closes (trace c)
      \<and> length (pings (trace (conn s))) = length (pings (trace c)) + length ws
      \<and> opts (conn s) = opts c
      \<and> healthCheckStopped (conn s) = healthCheckStopped c
      \<and> healthCheckQuit (conn s) = healthCheckQuit c)"

text \<open>
  The calls that have won the \<^verbatim>\<open>Swap\<close> and not yet returned, and what holds of the
  connection and the calls between any two steps.
\<close>

definition in_flight :: "stop_pc list \<Rightarrow> nat" where
  "in_flight pcs = sum_list (map (\<lambda>p. if p = AtLog \<or> p = AtClose then 1 else 0) pcs)"

definition stop_inv :: "Connection \<Rightarrow> Connection \<times> stop_pc list \<Rightarrow> bool" where
  "stop_inv c0 st =
     (case st of (c, pcs) \<Rightarrow>
        closes (trace c) = closes (trace c0)
        \<and> opts c = opts c0
        \<and> (if \<not> healthCheckStopped c
            then list_all (\<lambda>p. p = AtSwap) pcs \<and> healthCheckQuit c = ChanOpen
                 \<and> quit_closes (trace c) = quit_closes (trace c0)
            else if healthCheckQuit c = ChanOpen
            then in_flight pcs = 1 \<and> quit_closes (trace c) = quit_closes (trace c0)
            else in_flight pcs = 0 \<and> quit_closes (trace c) = Suc (quit_closes (trace c0))))"

subsection \<open>Example connections and wake-ups\<close>

definition conn3 :: Connection where
  "conn3 = \<lparr>opts = \<lparr>HealthChecks = \<lparr>Interval = 5000000000, Timeout = 1000000000,
                                      FailuresToClose = 3\<rparr>\<rparr>,
            healthCheckStopped = False, healthCheckQuit = ChanOpen, trace = []\<rparr>"

definition boom :: wakeup where
  "boom = TickerC (Some (ErrOther ''timeout''))"

definition conn0 :: Connection where
  "conn0 = \<lparr>opts = \<lparr>HealthChecks = \<lparr>Interval = 5000000000, Timeout = 0,
                                      FailuresToClose = 0\<rparr>\<rparr>,
            healthCheckStopped = False, healthCheckQuit = ChanOpen, trace = []\<rparr>"

section \<open>Properties of HealthCheckOptions\<close>

text \<open>
  C7: \<^verbatim>\<open>enabled()\<close> is true exactly when \<^verbatim>\<open>Interval > 0\<close> (a signed comparison of
  durations). \<^verbatim>\<open>Timeout\<close> and \<^verbatim>\<open>FailuresToClose\<close> have no part in it, and a zero interval
  gives false.
\<close>

theorem enabled_iff_Interval_positive:
  "enabled hco = (0 < sint (Interval hco))
   \<and> enabled (hco\<lparr>Timeout := t, FailuresToClose := f\<rparr>) = enabled hco
   \<and> enabled \<lparr>Interval = 0, Timeout = t, FailuresToClose = f\<rparr> = False"
  by (simp add: enabled_def word_sless_alt)

text \<open>
  C6: \<^verbatim>\<open>withDefaults\<close> returns the options with \<^verbatim>\<open>Timeout\<close> one second (\<open>10\<^sup>9\<close>
  nanoseconds) where it was zero, \<^verbatim>\<open>FailuresToClose\<close> five where it was zero, and every
  other field, \<^verbatim>\<open>Interval\<close> above all, as it was. The result is a function of the receiver's
  value alone: the receiver is passed by value, so the caller's options are not written.
\<close>

theorem withDefaults_fields:
  "Timeout (withDefaults hco) = (if Timeout hco = 0 then 1000000000 else Timeout hco)
   \<and> FailuresToClose (withDefaults hco)
       = (if FailuresToClose hco = 0 then 5 else FailuresToClose hco)
   \<and> Interval (withDefaults hco) = Interval hco
   \<and> withDefaults \<lparr>Interval = 0, Timeout = t, FailuresToClose = f\<rparr>
       = \<lparr>Interval = 0,
          Timeout = (if t = 0 then 1000000000 else t),
          FailuresToClose = (if f = 0 then 5 else f)\<rparr>"
  by (simp add: withDefaults_def Let_def defaultHealthCheckTimeout_def time_Second_def
      defaultHealthCheckFailuresToClose_def)

section \<open>Properties of the health-check goroutine\<close>

subsection \<open>The frame through a return and through an iteration\<close>

lemma run_deferred_conn: "conn (run_deferred ds s) = conn s"
  by (induction ds s rule: run_deferred.induct) (simp_all add: ticker_Stop_def cancel_def)

lemma run_deferred_consecutiveFailures:
  "consecutiveFailures (run_deferred ds s) = consecutiveFailures s"
  by (induction ds s rule: run_deferred.induct) (simp_all add: ticker_Stop_def cancel_def)

lemma run_deferred_ticker:
  "ticker (run_deferred ds s) = (if TickerStop \<in> set ds then TickerStopped else ticker s)"
  by (induction ds s rule: run_deferred.induct) (simp_all add: ticker_Stop_def cancel_def)

lemma run_deferred_live_ctxs:
  "live_ctxs (run_deferred ds s) = filter (\<lambda>k. Cancel k \<notin> set ds) (live_ctxs s)"
proof (induction ds s rule: run_deferred.induct)
  case (3 k ds s)
  then show ?case by (auto simp: cancel_def removeAll_filter_not_eq intro: filter_cong)
qed (simp_all add: ticker_Stop_def)

lemma after_ping_fields:
  "conn (after_ping hc_opts s) = record_event (Ping (ctx_count s) (Timeout hc_opts)) (conn s)"
  "consecutiveFailures (after_ping hc_opts s) = consecutiveFailures s"
  "defers (after_ping hc_opts s) = Cancel (ctx_count s) # defers s"
  "ticker (after_ping hc_opts s) = ticker s"
  "live_ctxs (after_ping hc_opts s) = ctx_count s # live_ctxs s"
  "ctx_count (after_ping hc_opts s) = Suc (ctx_count s)"
  by (simp_all add: after_ping_def ping_def on_conn_def go_defer_def context_WithTimeout_def)

lemma after_failure_fields:
  "conn (after_failure hc_opts e s) =
     record_event (ConnectionError ''healthCheck'' (Errorf ''healthCheck failed: %v'' e))
       (record_event (Ping (ctx_count s) (Timeout hc_opts)) (conn s))"
  "consecutiveFailures (after_failure hc_opts e s) = consecutiveFailures s + 1"
  "defers (after_failure hc_opts e s) = Cancel (ctx_count s) # defers s"
  "ticker (after_failure hc_opts e s) = ticker s"
  "live_ctxs (after_failure hc_opts e s) = ctx_count s # live_ctxs s"
  "ctx_count (after_failure hc_opts e s) = Suc (ctx_count s)"
  by (simp_all add: after_failure_def connectionError_def on_conn_def after_ping_fields)

lemma iteration_quit: "iteration hc_opts s HealthCheckQuit = return_from s"
  by (simp add: iteration_def)

lemma iteration_success:
  "iteration hc_opts s (TickerC None) =
     (Waiting, (after_ping hc_opts s)\<lparr>consecutiveFailures := 0\<rparr>)"
  by (simp add: iteration_def after_ping_def context_WithTimeout_def)

lemma iteration_sentinel:
  "iteration hc_opts s (TickerC (Some ErrInvalidConnectionState)) =
     return_from (after_ping hc_opts s)"
  by (simp add: iteration_def after_ping_def context_WithTimeout_def)

lemma iteration_failure:
  "e \<noteq> ErrInvalidConnectionState \<Longrightarrow>
   iteration hc_opts s (TickerC (Some e)) =
     (if FailuresToClose hc_opts \<le>s consecutiveFailures s + 1
      then return_from (close [LogField ''reason'' ''health check failure'', ErrField e]
                          (after_failure hc_opts e s))
      else (Waiting, after_failure hc_opts e s))"
  by (simp add: iteration_def after_ping_def after_failure_def context_WithTimeout_def Let_def
      connectionError_def ping_def on_conn_def go_defer_def)

lemma loop_append:
  "loop hc_opts s (ws @ ws') =
     (case loop hc_opts s ws of (Waiting, s') \<Rightarrow> loop hc_opts s' ws' | r \<Rightarrow> r)"
  by (induction ws arbitrary: s) (auto split: prod.splits status.splits)

lemma healthCheck_snoc:
  "healthCheck connID c (ws @ [w]) =
     (case healthCheck connID c ws of
        (Waiting, s) \<Rightarrow> iteration (HealthChecks (opts c)) s w
      | r \<Rightarrow> r)"
  by (auto simp add: healthCheck_def Let_def loop_append
      split: option.splits prod.splits status.splits)

text \<open>No overflow: below any threshold, the increment of the counter is the integers'.\<close>

lemma sint_succ_below:
  fixes c t :: "64 word"
  assumes "c <s t"
  shows "sint (c + 1) = sint c + 1"
proof -
  have lt: "sint c < sint t" using assms by (simp add: word_sless_alt)
  have up: "sint t < 2 ^ 63" using sint_lt [of t] by simp
  have lo: "- (2 ^ 63) \<le> sint c" using sint_ge [of c] by simp
  have "sint (c + 1) = signed_take_bit 63 (sint c + 1)"
    by (simp add: sint_word_ariths)
  also have "\<dots> = sint c + 1"
    using lt up lo by (intro signed_take_bit_int_eq_self) simp_all
  finally show ?thesis .
qed

subsection \<open>Traces and streaks\<close>

lemma closes_append: "closes (xs @ ys) = closes xs @ closes ys"
  by (induction xs rule: closes.induct) simp_all

lemma reports_append: "reports (xs @ ys) = reports xs @ reports ys"
  by (induction xs rule: reports.induct) simp_all

lemma pings_append: "pings (xs @ ys) = pings xs @ pings ys"
  by (induction xs rule: pings.induct) simp_all

lemma quit_closes_append: "quit_closes (xs @ ys) = quit_closes xs + quit_closes ys"
  by (induction xs rule: quit_closes.induct) simp_all

lemma failure_streak_simps:
  "failure_streak [] = 0"
  "failure_streak (ws @ [TickerC None]) = 0"
  "failure_streak (ws @ [HealthCheckQuit]) = failure_streak ws"
  "failure_streak (ws @ [TickerC (Some e)]) =
     (if e = ErrInvalidConnectionState then failure_streak ws else Suc (failure_streak ws))"
  by (simp_all add: failure_streak_def)

lemma healthCheck_Nil:
  assumes "enabled (HealthChecks (opts c))"
  shows "fst (healthCheck connID c []) = Waiting"
    and "waiting_inv c [] (snd (healthCheck connID c []))"
  using assms
  by (simp_all add: healthCheck_def enabled_def time_NewTicker_def Let_def enter_def
      go_defer_def waiting_inv_def failure_streak_simps)

lemma healthCheck_disabled:
  "\<not> enabled (HealthChecks (opts c)) \<Longrightarrow> healthCheck connID c ws = (Panicked, enter c)"
  by (simp add: healthCheck_def enabled_def time_NewTicker_def Let_def)

lemma fst_return_from: "fst (return_from s) = Returned"
  by (simp add: return_from_def)

lemma waiting_snocD:
  assumes "fst (healthCheck connID c (ws @ [w])) = Waiting"
  shows "fst (healthCheck connID c ws) = Waiting"
    and "iteration (HealthChecks (opts c)) (snd (healthCheck connID c ws)) w
           = healthCheck connID c (ws @ [w])"
  using assms
  by (auto simp: healthCheck_snoc split: prod.splits status.splits)

lemma iteration_Waiting_cases:
  assumes "fst (iteration hc_opts s w) = Waiting"
  shows "(w = TickerC None \<and> snd (iteration hc_opts s w) = (after_ping hc_opts s)\<lparr>consecutiveFailures := 0\<rparr>)
       \<or> (\<exists>e. w = TickerC (Some e) \<and> e \<noteq> ErrInvalidConnectionState
              \<and> \<not> FailuresToClose hc_opts \<le>s consecutiveFailures s + 1
              \<and> snd (iteration hc_opts s w) = after_failure hc_opts e s)"
proof (cases w)
  case HealthCheckQuit
  with assms show ?thesis by (simp add: iteration_quit fst_return_from)
next
  case (TickerC r)
  show ?thesis
  proof (cases r)
    case None
    with TickerC show ?thesis by (simp add: iteration_success)
  next
    case (Some e)
    show ?thesis
    proof (cases "e = ErrInvalidConnectionState")
      case True
      with assms TickerC Some show ?thesis by (simp add: iteration_sentinel fst_return_from)
    next
      case False
      with assms TickerC Some show ?thesis
        by (auto simp: iteration_failure fst_return_from split: if_splits)
    qed
  qed
qed

lemma waiting_inv_step_success:
  assumes "waiting_inv c ws s"
  shows "waiting_inv c (ws @ [TickerC None]) ((after_ping (HealthChecks (opts c)) s)\<lparr>consecutiveFailures := 0\<rparr>)"
  using assms
  by (simp add: waiting_inv_def after_ping_fields failure_streak_simps record_event_def
      closes_append pings_append)

lemma waiting_inv_step_failure:
  assumes inv: "waiting_inv c ws s"
    and e: "e \<noteq> ErrInvalidConnectionState"
    and below: "\<not> FailuresToClose (HealthChecks (opts c)) \<le>s consecutiveFailures s + 1"
  shows "waiting_inv c (ws @ [TickerC (Some e)]) (after_failure (HealthChecks (opts c)) e s)"
proof -
  have succ: "sint (consecutiveFailures s + 1) = sint (consecutiveFailures s) + 1"
  proof (cases "consecutiveFailures s = 0")
    case True
    then show ?thesis by simp
  next
    case False
    with inv have "consecutiveFailures s <s FailuresToClose (HealthChecks (opts c))"
      by (simp add: waiting_inv_def)
    then show ?thesis by (rule sint_succ_below)
  qed
  have lt: "consecutiveFailures s + 1 <s FailuresToClose (HealthChecks (opts c))"
    using below by (simp add: word_sle_eq word_sless_alt)
  show ?thesis
    using inv e succ lt
    by (simp add: waiting_inv_def after_failure_fields failure_streak_simps record_event_def
        closes_append pings_append)
qed

lemma waiting_invariant:
  assumes "fst (healthCheck connID c ws) = Waiting"
  shows "waiting_inv c ws (snd (healthCheck connID c ws))"
  using assms
proof (induction ws rule: rev_induct)
  case Nil
  have "enabled (HealthChecks (opts c))"
  proof (rule ccontr)
    assume "\<not> enabled (HealthChecks (opts c))"
    with Nil show False by (simp add: healthCheck_disabled)
  qed
  then show ?case by (rule healthCheck_Nil)
next
  case (snoc w ws)
  let ?s = "snd (healthCheck connID c ws)"
  let ?o = "HealthChecks (opts c)"
  from snoc.prems have W: "fst (healthCheck connID c ws) = Waiting"
    and it: "iteration ?o ?s w = healthCheck connID c (ws @ [w])"
    by (rule waiting_snocD)+
  from snoc.IH W have inv: "waiting_inv c ws ?s" .
  from it snoc.prems have "fst (iteration ?o ?s w) = Waiting" by simp
  from iteration_Waiting_cases [OF this] show ?case
  proof (elim disjE conjE exE)
    assume "w = TickerC None" "snd (iteration ?o ?s w) = (after_ping ?o ?s)\<lparr>consecutiveFailures := 0\<rparr>"
    with inv it show ?thesis by (simp add: waiting_inv_step_success)
  next
    fix e
    assume "w = TickerC (Some e)" "e \<noteq> ErrInvalidConnectionState"
      "\<not> FailuresToClose ?o \<le>s consecutiveFailures ?s + 1"
      "snd (iteration ?o ?s w) = after_failure ?o e ?s"
    with inv it show ?thesis by (simp add: waiting_inv_step_failure)
  qed
qed


lemma healthCheck_append:
  "healthCheck connID c (ws @ ws') =
     (case healthCheck connID c ws of
        (Waiting, s) \<Rightarrow> loop (HealthChecks (opts c)) s ws'
      | r \<Rightarrow> r)"
  by (auto simp add: healthCheck_def Let_def loop_append
      split: option.splits prod.splits status.splits)

lemma healthCheck_stable:
  assumes "fst (healthCheck connID c ws) \<noteq> Waiting"
  shows "healthCheck connID c (ws @ ws') = healthCheck connID c ws"
  using assms by (auto simp: healthCheck_append split: prod.splits status.splits)

lemma healthCheck_step:
  assumes "fst (healthCheck connID c ws) = Waiting"
  shows "healthCheck connID c (ws @ [w])
           = iteration (HealthChecks (opts c)) (snd (healthCheck connID c ws)) w"
  using assms by (auto simp: healthCheck_snoc split: prod.splits status.splits)

lemma iteration_not_Panicked: "fst (iteration hc_opts s w) \<noteq> Panicked"
proof (cases w)
  case HealthCheckQuit
  then show ?thesis by (simp add: iteration_quit fst_return_from)
next
  case (TickerC r)
  show ?thesis
  proof (cases r)
    case None
    with TickerC show ?thesis by (simp add: iteration_success)
  next
    case (Some e)
    with TickerC show ?thesis
      by (cases "e = ErrInvalidConnectionState")
         (simp_all add: iteration_sentinel iteration_failure fst_return_from)
  qed
qed

lemma healthCheck_enabled_status:
  assumes "enabled (HealthChecks (opts c))"
  shows "fst (healthCheck connID c ws) \<noteq> Panicked"
proof (induction ws rule: rev_induct)
  case Nil
  from assms show ?case by (simp add: healthCheck_Nil)
next
  case (snoc w ws)
  show ?case
  proof (cases "fst (healthCheck connID c ws) = Waiting")
    case True
    then show ?thesis by (simp add: healthCheck_step iteration_not_Panicked)
  next
    case False
    with snoc show ?thesis by (simp add: healthCheck_stable)
  qed
qed

text \<open>A run that has returned did so in one iteration, entered from the select.\<close>

lemma returned_decompose:
  assumes "fst (healthCheck connID c ws) = Returned"
  shows "\<exists>pre w post. ws = pre @ w # post
           \<and> fst (healthCheck connID c pre) = Waiting
           \<and> healthCheck connID c ws
               = iteration (HealthChecks (opts c)) (snd (healthCheck connID c pre)) w"
  using assms
proof (induction ws rule: rev_induct)
  case Nil
  have "fst (healthCheck connID c []) \<noteq> Returned"
    by (cases "enabled (HealthChecks (opts c))")
       (simp_all add: healthCheck_Nil healthCheck_disabled)
  with Nil show ?case by simp
next
  case (snoc w ws)
  show ?case
  proof (cases "fst (healthCheck connID c ws) = Waiting")
    case True
    then have "healthCheck connID c (ws @ [w])
        = iteration (HealthChecks (opts c)) (snd (healthCheck connID c ws)) w"
      by (rule healthCheck_step)
    with True show ?thesis by blast
  next
    case False
    then have same: "healthCheck connID c (ws @ [w]) = healthCheck connID c ws"
      by (rule healthCheck_stable)
    with snoc.prems have "fst (healthCheck connID c ws) = Returned" by simp
    from snoc.IH [OF this] obtain pre w' post where
      "ws = pre @ w' # post" "fst (healthCheck connID c pre) = Waiting"
      "healthCheck connID c ws
         = iteration (HealthChecks (opts c)) (snd (healthCheck connID c pre)) w'"
      by blast
    with same have "ws @ [w] = pre @ w' # (post @ [w])
      \<and> fst (healthCheck connID c pre) = Waiting
      \<and> healthCheck connID c (ws @ [w])
          = iteration (HealthChecks (opts c)) (snd (healthCheck connID c pre)) w'"
      by simp
    then show ?thesis by blast
  qed
qed

lemma return_from_fields:
  "fst (return_from s) = Returned"
  "conn (snd (return_from s)) = conn s"
  "consecutiveFailures (snd (return_from s)) = consecutiveFailures s"
  "ticker (snd (return_from s)) = (if TickerStop \<in> set (defers s) then TickerStopped else ticker s)"
  "live_ctxs (snd (return_from s)) = filter (\<lambda>k. Cancel k \<notin> set (defers s)) (live_ctxs s)"
  by (simp_all add: return_from_def run_deferred_conn run_deferred_consecutiveFailures
      run_deferred_ticker run_deferred_live_ctxs)

lemma close_fields:
  "conn (close fs s) = record_event (Close fs) (conn s)"
  "consecutiveFailures (close fs s) = consecutiveFailures s"
  "defers (close fs s) = defers s"
  "ticker (close fs s) = ticker s"
  "live_ctxs (close fs s) = live_ctxs s"
  "ctx_count (close fs s) = ctx_count s"
  by (simp_all add: close_def on_conn_def)

text \<open>The three ways out of an iteration.\<close>

lemma iteration_Returned_cases:
  assumes "fst (iteration hc_opts s w) = Returned"
  shows "(w = HealthCheckQuit \<and> iteration hc_opts s w = return_from s)
       \<or> (w = TickerC (Some ErrInvalidConnectionState)
            \<and> iteration hc_opts s w = return_from (after_ping hc_opts s))
       \<or> (\<exists>e. w = TickerC (Some e) \<and> e \<noteq> ErrInvalidConnectionState
              \<and> FailuresToClose hc_opts \<le>s consecutiveFailures s + 1
              \<and> iteration hc_opts s w
                  = return_from (close [LogField ''reason'' ''health check failure'', ErrField e]
                                   (after_failure hc_opts e s)))"
proof (cases w)
  case HealthCheckQuit
  then show ?thesis by (simp add: iteration_quit)
next
  case (TickerC r)
  show ?thesis
  proof (cases r)
    case None
    with assms TickerC show ?thesis by (simp add: iteration_success)
  next
    case (Some e)
    show ?thesis
    proof (cases "e = ErrInvalidConnectionState")
      case True
      with TickerC Some show ?thesis by (simp add: iteration_sentinel)
    next
      case False
      with assms TickerC Some show ?thesis
        by (auto simp: iteration_failure split: if_splits)
    qed
  qed
qed

lemma returned_exit:
  assumes "fst (healthCheck connID c ws) = Returned"
  shows "\<exists>pre w post. ws = pre @ w # post
           \<and> fst (healthCheck connID c pre) = Waiting
           \<and> healthCheck connID c ws
               = iteration (HealthChecks (opts c)) (snd (healthCheck connID c pre)) w
           \<and> fst (iteration (HealthChecks (opts c)) (snd (healthCheck connID c pre)) w) = Returned"
  using returned_decompose [OF assms] assms by metis

lemma returned_frame:
  assumes "fst (healthCheck connID c ws) = Returned"
  shows "ticker (snd (healthCheck connID c ws)) = TickerStopped"
    and "live_ctxs (snd (healthCheck connID c ws)) = []"
proof -
  from returned_exit [OF assms] obtain pre w post where
    W: "fst (healthCheck connID c pre) = Waiting"
    and eq: "healthCheck connID c ws
               = iteration (HealthChecks (opts c)) (snd (healthCheck connID c pre)) w"
    and R: "fst (iteration (HealthChecks (opts c)) (snd (healthCheck connID c pre)) w) = Returned"
    by blast
  let ?s = "snd (healthCheck connID c pre)"
  from waiting_invariant [OF W]
  have d: "defers ?s = map Cancel (rev [0..<length pre]) @ [TickerStop]"
    and l: "live_ctxs ?s = rev [0..<length pre]"
    and n: "ctx_count ?s = length pre"
    by (simp_all add: waiting_inv_def)
  from iteration_Returned_cases [OF R]
  show "ticker (snd (healthCheck connID c ws)) = TickerStopped"
    and "live_ctxs (snd (healthCheck connID c ws)) = []"
    using d l n
    by (auto simp: eq return_from_fields after_ping_fields after_failure_fields close_fields
        filter_empty_conv)
qed

subsection \<open>The counter and the closing run\<close>

lemma sint_succ_waiting:
  assumes "waiting_inv c ws s"
  shows "sint (consecutiveFailures s + 1) = int (failure_streak ws) + 1"
proof (cases "consecutiveFailures s = 0")
  case True
  with assms show ?thesis by (simp add: waiting_inv_def)
next
  case False
  with assms have "consecutiveFailures s <s FailuresToClose (HealthChecks (opts c))"
    by (simp add: waiting_inv_def)
  then have "sint (consecutiveFailures s + 1) = sint (consecutiveFailures s) + 1"
    by (rule sint_succ_below)
  with assms show ?thesis by (simp add: waiting_inv_def)
qed

lemma counter_after_step:
  assumes W: "fst (healthCheck connID c ws) = Waiting"
  shows "sint (counter_of (healthCheck connID c (ws @ [w]))) = int (failure_streak (ws @ [w]))"
proof -
  let ?s = "snd (healthCheck connID c ws)"
  let ?o = "HealthChecks (opts c)"
  have inv: "waiting_inv c ws ?s" using W by (rule waiting_invariant)
  then have cf: "sint (consecutiveFailures ?s) = int (failure_streak ws)"
    by (simp add: waiting_inv_def)
  have succ: "sint (consecutiveFailures ?s + 1) = int (failure_streak ws) + 1"
    using inv by (rule sint_succ_waiting)
  have step: "healthCheck connID c (ws @ [w]) = iteration ?o ?s w"
    using W by (rule healthCheck_step)
  show ?thesis
  proof (cases w)
    case HealthCheckQuit
    with cf step show ?thesis
      by (simp add: counter_of_def iteration_quit return_from_fields failure_streak_simps)
  next
    case (TickerC r)
    show ?thesis
    proof (cases r)
      case None
      with TickerC step show ?thesis
        by (simp add: counter_of_def iteration_success failure_streak_simps)
    next
      case (Some e)
      show ?thesis
      proof (cases "e = ErrInvalidConnectionState")
        case True
        with TickerC Some cf step show ?thesis
          by (simp add: counter_of_def iteration_sentinel return_from_fields
              after_ping_fields failure_streak_simps)
      next
        case False
        with TickerC Some succ step show ?thesis
          by (simp add: counter_of_def iteration_failure return_from_fields
              after_failure_fields close_fields failure_streak_simps)
      qed
    qed
  qed
qed

text \<open>The run that closes the connection.\<close>

lemma closed_run:
  assumes W: "fst (healthCheck connID c pre) = Waiting"
    and e: "e \<noteq> ErrInvalidConnectionState"
    and breach: "FailuresToClose (HealthChecks (opts c))
                   \<le>s counter_of (healthCheck connID c pre) + 1"
  shows "healthCheck connID c (pre @ TickerC (Some e) # post)
           = healthCheck connID c (pre @ [TickerC (Some e)])"
    and "fst (healthCheck connID c (pre @ TickerC (Some e) # post)) = Returned"
    and "trace_of (healthCheck connID c (pre @ TickerC (Some e) # post))
           = trace_of (healthCheck connID c pre)
             @ [Ping (length pre) (Timeout (HealthChecks (opts c))),
                ConnectionError ''healthCheck'' (Errorf ''healthCheck failed: %v'' e),
                Close [LogField ''reason'' ''health check failure'', ErrField e]]"
    and "closes (trace_of (healthCheck connID c (pre @ TickerC (Some e) # post)))
           = closes (trace c) @ [[LogField ''reason'' ''health check failure'', ErrField e]]"
    and "counter_of (healthCheck connID c (pre @ TickerC (Some e) # post))
           = counter_of (healthCheck connID c pre) + 1"
proof -
  let ?s = "snd (healthCheck connID c pre)"
  let ?o = "HealthChecks (opts c)"
  let ?f = "TickerC (Some e)"
  have inv: "waiting_inv c pre ?s" using W by (rule waiting_invariant)
  have step: "healthCheck connID c (pre @ [?f])
      = return_from (close [LogField ''reason'' ''health check failure'', ErrField e]
                       (after_failure ?o e ?s))"
    using e breach by (simp add: healthCheck_step [OF W] iteration_failure counter_of_def)
  then have R: "fst (healthCheck connID c (pre @ [?f])) \<noteq> Waiting"
    by (simp add: return_from_fields)
  have "healthCheck connID c ((pre @ [?f]) @ post) = healthCheck connID c (pre @ [?f])"
    using R by (rule healthCheck_stable)
  then show same: "healthCheck connID c (pre @ ?f # post) = healthCheck connID c (pre @ [?f])"
    by simp
  show "fst (healthCheck connID c (pre @ ?f # post)) = Returned"
    by (simp add: same step return_from_fields)
  show tr: "trace_of (healthCheck connID c (pre @ ?f # post))
           = trace_of (healthCheck connID c pre)
             @ [Ping (length pre) (Timeout ?o),
                ConnectionError ''healthCheck'' (Errorf ''healthCheck failed: %v'' e),
                Close [LogField ''reason'' ''health check failure'', ErrField e]]"
    using inv
    by (simp add: same step trace_of_def return_from_fields close_fields after_failure_fields
        record_event_def waiting_inv_def)
  show "closes (trace_of (healthCheck connID c (pre @ ?f # post)))
           = closes (trace c) @ [[LogField ''reason'' ''health check failure'', ErrField e]]"
    using inv tr by (simp add: closes_append trace_of_def waiting_inv_def)
  show "counter_of (healthCheck connID c (pre @ ?f # post))
           = counter_of (healthCheck connID c pre) + 1"
    by (simp add: same step counter_of_def return_from_fields close_fields after_failure_fields)
qed

text \<open>A run that returned without closing left the closes as they were.\<close>

lemma run_cases:
  assumes en: "enabled (HealthChecks (opts c))"
  shows "closes (trace_of (healthCheck connID c ws)) = closes (trace c)
       \<or> (\<exists>pre e post. ws = pre @ TickerC (Some e) # post
             \<and> e \<noteq> ErrInvalidConnectionState
             \<and> fst (healthCheck connID c pre) = Waiting
             \<and> FailuresToClose (HealthChecks (opts c))
                   \<le>s counter_of (healthCheck connID c pre) + 1)"
proof (cases "fst (healthCheck connID c ws)")
  case Waiting
  from waiting_invariant [OF this] show ?thesis
    by (simp add: waiting_inv_def trace_of_def)
next
  case Panicked
  with healthCheck_enabled_status [OF en, of connID ws] show ?thesis by simp
next
  case Returned
  from returned_exit [OF this] obtain pre w post where
    ws: "ws = pre @ w # post"
    and W: "fst (healthCheck connID c pre) = Waiting"
    and eq: "healthCheck connID c ws
               = iteration (HealthChecks (opts c)) (snd (healthCheck connID c pre)) w"
    and R: "fst (iteration (HealthChecks (opts c)) (snd (healthCheck connID c pre)) w) = Returned"
    by blast
  have inv: "closes (trace (conn (snd (healthCheck connID c pre)))) = closes (trace c)"
    using waiting_invariant [OF W] by (simp add: waiting_inv_def)
  from iteration_Returned_cases [OF R] show ?thesis
  proof (elim disjE conjE exE)
    assume "iteration (HealthChecks (opts c)) (snd (healthCheck connID c pre)) w
              = return_from (snd (healthCheck connID c pre))"
    with inv show ?thesis by (simp add: eq trace_of_def return_from_fields)
  next
    assume "iteration (HealthChecks (opts c)) (snd (healthCheck connID c pre)) w
              = return_from (after_ping (HealthChecks (opts c)) (snd (healthCheck connID c pre)))"
    with inv show ?thesis
      by (simp add: eq trace_of_def return_from_fields after_ping_fields record_event_def
          closes_append)
  next
    fix e
    assume "w = TickerC (Some e)" "e \<noteq> ErrInvalidConnectionState"
      "FailuresToClose (HealthChecks (opts c))
         \<le>s consecutiveFailures (snd (healthCheck connID c pre)) + 1"
    with ws W show ?thesis by (auto simp: counter_of_def)
  qed
qed

subsection \<open>Closing the connection\<close>

lemma returned_proceeding_closed:
  assumes R: "fst (healthCheck connID c ws) = Returned"
    and all: "list_all proceeds ws"
  shows "closes (trace_of (healthCheck connID c ws)) \<noteq> closes (trace c)"
proof -
  from returned_exit [OF R] obtain pre w post where
    ws: "ws = pre @ w # post"
    and W: "fst (healthCheck connID c pre) = Waiting"
    and Rw: "fst (iteration (HealthChecks (opts c)) (snd (healthCheck connID c pre)) w) = Returned"
    by blast
  from all ws have w: "proceeds w" by simp
  from iteration_Returned_cases [OF Rw] w obtain e where
    "w = TickerC (Some e)" "e \<noteq> ErrInvalidConnectionState"
    "FailuresToClose (HealthChecks (opts c))
       \<le>s counter_of (healthCheck connID c pre) + 1"
    by (auto simp: counter_of_def)
  with closed_run(4) [OF W, of e post] ws show ?thesis by simp
qed

lemma threshold_exact:
  assumes inv: "waiting_inv c pre s"
    and pos: "0 <s FailuresToClose (HealthChecks (opts c))"
    and breach: "FailuresToClose (HealthChecks (opts c)) \<le>s consecutiveFailures s + 1"
  shows "consecutiveFailures s + 1 = FailuresToClose (HealthChecks (opts c))"
proof -
  let ?t = "FailuresToClose (HealthChecks (opts c))"
  have below: "consecutiveFailures s <s ?t"
    using inv pos by (auto simp: waiting_inv_def)
  then have "sint (consecutiveFailures s + 1) = sint (consecutiveFailures s) + 1"
    by (rule sint_succ_below)
  moreover have "sint (consecutiveFailures s) < sint ?t"
    using below by (simp add: word_sless_alt)
  moreover have "sint ?t \<le> sint (consecutiveFailures s + 1)"
    using breach by (simp add: word_sle_eq)
  ultimately have "sint (consecutiveFailures s + 1) = sint ?t" by simp
  then show ?thesis by (rule signed_word_eqI)
qed

text \<open>
  C2: for a monitor started with health checks enabled, and any wake-ups \<open>ws\<close>:
  \<^item> \<^verbatim>\<open>c.close\<close> is called exactly when some probe that the loop reaches fails, not with the
    sentinel, and the incremented counter is at least \<^verbatim>\<open>FailuresToClose\<close>;
  \<^item> equally, exactly when such a failure completes a streak of at least
    \<^verbatim>\<open>FailuresToClose\<close> failures, so never on a shorter streak;
  \<^item> it is called at most once, and then with the reason
    \<^verbatim>\<open>"health check failure"\<close> and the error of that probe; the counter is the length of the
    streak, and is the threshold itself when the threshold is positive; the \<^verbatim>\<open>Close\<close> is the
    last event of the trace, the goroutine has returned, and the wake-ups after the
    closing probe play no part.
\<close>

theorem close_iff_threshold_reached:
  assumes en: "enabled (HealthChecks (opts c))"
  shows "((closes (trace_of (healthCheck connID c ws)) \<noteq> closes (trace c))
            = (\<exists>pre e post. ws = pre @ TickerC (Some e) # post
                 \<and> e \<noteq> ErrInvalidConnectionState
                 \<and> fst (healthCheck connID c pre) = Waiting
                 \<and> FailuresToClose (HealthChecks (opts c))
                       \<le>s counter_of (healthCheck connID c pre) + 1))
       \<and> ((closes (trace_of (healthCheck connID c ws)) \<noteq> closes (trace c))
            = (\<exists>pre e post. ws = pre @ TickerC (Some e) # post
                 \<and> e \<noteq> ErrInvalidConnectionState
                 \<and> list_all proceeds pre
                 \<and> sint (FailuresToClose (HealthChecks (opts c)))
                       \<le> int (failure_streak (pre @ [TickerC (Some e)]))))
       \<and> (closes (trace_of (healthCheck connID c ws)) = closes (trace c)
            \<or> (\<exists>pre e post. ws = pre @ TickerC (Some e) # post
                 \<and> e \<noteq> ErrInvalidConnectionState
                 \<and> fst (healthCheck connID c pre) = Waiting
                 \<and> counter_of (healthCheck connID c ws)
                     = counter_of (healthCheck connID c pre) + 1
                 \<and> sint (counter_of (healthCheck connID c ws))
                     = int (failure_streak (pre @ [TickerC (Some e)]))
                 \<and> FailuresToClose (HealthChecks (opts c))
                       \<le>s counter_of (healthCheck connID c ws)
                 \<and> (0 <s FailuresToClose (HealthChecks (opts c)) \<longrightarrow>
                       counter_of (healthCheck connID c ws)
                         = FailuresToClose (HealthChecks (opts c)))
                 \<and> closes (trace_of (healthCheck connID c ws))
                     = closes (trace c)
                       @ [[LogField ''reason'' ''health check failure'', ErrField e]]
                 \<and> trace_of (healthCheck connID c ws)
                     = trace_of (healthCheck connID c pre)
                       @ [Ping (length pre) (Timeout (HealthChecks (opts c))),
                          ConnectionError ''healthCheck'' (Errorf ''healthCheck failed: %v'' e),
                          Close [LogField ''reason'' ''health check failure'', ErrField e]]
                 \<and> fst (healthCheck connID c ws) = Returned
                 \<and> healthCheck connID c ws = healthCheck connID c (pre @ [TickerC (Some e)])))"
    (is "(?closed = ?reached) \<and> (?closed = ?streak) \<and> (?same \<or> ?once)")
proof -
  let ?t = "FailuresToClose (HealthChecks (opts c))"
  have reached_closed: "?closed" if "?reached"
  proof -
    from that obtain pre e post where
      ws: "ws = pre @ TickerC (Some e) # post" and e: "e \<noteq> ErrInvalidConnectionState"
      and W: "fst (healthCheck connID c pre) = Waiting"
      and breach: "?t \<le>s counter_of (healthCheck connID c pre) + 1"
      by blast
    from closed_run(4) [OF W e breach, of post] ws show ?thesis by simp
  qed
  have closed_reached: "?reached" if "?closed"
    using run_cases [OF en, of connID ws] that by blast
  have A: "?closed = ?reached"
    using reached_closed closed_reached by blast
  have streak_closed: "?closed" if "?streak"
  proof -
    from that obtain pre e post where
      ws: "ws = pre @ TickerC (Some e) # post" and e: "e \<noteq> ErrInvalidConnectionState"
      and all: "list_all proceeds pre"
      and long: "sint ?t \<le> int (failure_streak (pre @ [TickerC (Some e)]))"
      by blast
    show ?thesis
    proof (cases "fst (healthCheck connID c pre)")
      case Waiting
      have inv: "waiting_inv c pre (snd (healthCheck connID c pre))"
        using Waiting by (rule waiting_invariant)
      have "sint (counter_of (healthCheck connID c pre) + 1) = int (failure_streak pre) + 1"
        using sint_succ_waiting [OF inv] by (simp add: counter_of_def)
      with long e have "?t \<le>s counter_of (healthCheck connID c pre) + 1"
        by (simp add: word_sle_eq failure_streak_simps)
      from closed_run(4) [OF Waiting e this, of post] ws show ?thesis by simp
    next
      case Returned
      then have "closes (trace_of (healthCheck connID c pre)) \<noteq> closes (trace c)"
        using all by (rule returned_proceeding_closed)
      moreover have "healthCheck connID c (pre @ TickerC (Some e) # post)
                       = healthCheck connID c pre"
        using Returned by (intro healthCheck_stable) simp
      ultimately show ?thesis using ws by simp
    next
      case Panicked
      with healthCheck_enabled_status [OF en, of connID pre] show ?thesis by simp
    qed
  qed
  have reached_streak: "?streak" if "?reached"
  proof -
    from that obtain pre e post where
      ws: "ws = pre @ TickerC (Some e) # post" and e: "e \<noteq> ErrInvalidConnectionState"
      and W: "fst (healthCheck connID c pre) = Waiting"
      and breach: "?t \<le>s counter_of (healthCheck connID c pre) + 1"
      by blast
    have inv: "waiting_inv c pre (snd (healthCheck connID c pre))"
      using W by (rule waiting_invariant)
    then have all: "list_all proceeds pre" by (simp add: waiting_inv_def)
    have "sint (counter_of (healthCheck connID c pre) + 1) = int (failure_streak pre) + 1"
      using sint_succ_waiting [OF inv] by (simp add: counter_of_def)
    with breach e have "sint ?t \<le> int (failure_streak (pre @ [TickerC (Some e)]))"
      by (simp add: word_sle_eq failure_streak_simps)
    with ws e all show ?thesis by blast
  qed
  have B: "?closed = ?streak"
    using streak_closed reached_streak closed_reached by blast
  have C: "?same \<or> ?once"
  proof (cases ?closed)
    case False
    then show ?thesis by simp
  next
    case True
    with closed_reached obtain pre e post where
      ws: "ws = pre @ TickerC (Some e) # post" and e: "e \<noteq> ErrInvalidConnectionState"
      and W: "fst (healthCheck connID c pre) = Waiting"
      and breach: "?t \<le>s counter_of (healthCheck connID c pre) + 1"
      by blast
    have inv: "waiting_inv c pre (snd (healthCheck connID c pre))"
      using W by (rule waiting_invariant)
    note run = closed_run [OF W e breach, of post]
    have cnt: "counter_of (healthCheck connID c ws) = counter_of (healthCheck connID c pre) + 1"
      using run(5) ws by simp
    have "sint (counter_of (healthCheck connID c pre) + 1) = int (failure_streak pre) + 1"
      using sint_succ_waiting [OF inv] by (simp add: counter_of_def)
    then have str: "sint (counter_of (healthCheck connID c ws))
                     = int (failure_streak (pre @ [TickerC (Some e)]))"
      using e by (simp add: cnt failure_streak_simps)
    have ge: "?t \<le>s counter_of (healthCheck connID c ws)"
      using breach by (simp add: cnt)
    have exact: "0 <s ?t \<longrightarrow> counter_of (healthCheck connID c ws) = ?t"
      using threshold_exact [OF inv] breach cnt by (simp add: counter_of_def)
    have "?once"
      using ws e W cnt str ge exact run(1,2,3,4) by (intro exI [of _ pre] exI [of _ e] exI [of _ post]) simp
    then show ?thesis ..
  qed
  from A B C show ?thesis by blast
qed


text \<open>Threshold 3; the sixth probe completes a streak of three.\<close>

theorem close_iff_threshold_reached_witness:
  "enabled (HealthChecks (opts conn3))
   \<and> closes (trace_of (healthCheck 7 conn3
               [boom, boom, TickerC None, boom, boom, boom, boom]))
       = [[LogField ''reason'' ''health check failure'', ErrField (ErrOther ''timeout'')]]"
proof -
  let ?ws = "[boom, boom, TickerC None, boom, boom, boom, boom]"
  have en: "enabled (HealthChecks (opts conn3))"
    by (simp add: conn3_def enabled_def word_sless_alt)
  have t: "trace conn3 = []" by (simp add: conn3_def)
  have "?ws = [boom, boom, TickerC None, boom, boom] @ TickerC (Some (ErrOther ''timeout'')) # [boom]
        \<and> ErrOther ''timeout'' \<noteq> ErrInvalidConnectionState
        \<and> list_all proceeds [boom, boom, TickerC None, boom, boom]
        \<and> sint (FailuresToClose (HealthChecks (opts conn3)))
             \<le> int (failure_streak ([boom, boom, TickerC None, boom, boom]
                                     @ [TickerC (Some (ErrOther ''timeout''))]))"
    by (simp add: boom_def conn3_def failure_streak_def)
  then have streak: "\<exists>pre e post. ?ws = pre @ TickerC (Some e) # post
        \<and> e \<noteq> ErrInvalidConnectionState
        \<and> list_all proceeds pre
        \<and> sint (FailuresToClose (HealthChecks (opts conn3)))
             \<le> int (failure_streak (pre @ [TickerC (Some e)]))"
    by blast
  note main = close_iff_threshold_reached [OF en, of 7 ?ws]
  from main streak have closed: "closes (trace_of (healthCheck 7 conn3 ?ws)) \<noteq> closes (trace conn3)"
    by blast
  with main obtain pre e post where
    ws: "?ws = pre @ TickerC (Some e) # post"
    and cl: "closes (trace_of (healthCheck 7 conn3 ?ws))
               = closes (trace conn3)
                 @ [[LogField ''reason'' ''health check failure'', ErrField e]]"
    by blast
  have "TickerC (Some e) \<in> set ?ws"
    by (subst ws) simp
  then have "e = ErrOther ''timeout''"
    by (simp add: boom_def)
  with cl en t show ?thesis by simp
qed

subsection \<open>The failure counter\<close>

lemma scenario_three:
  assumes en: "enabled (HealthChecks (opts c))"
    and thr: "FailuresToClose (HealthChecks (opts c)) = 3"
    and e: "e \<noteq> ErrInvalidConnectionState"
  shows "[counter_of (healthCheck connID c [TickerC (Some e)]),
          counter_of (healthCheck connID c [TickerC (Some e), TickerC (Some e)]),
          counter_of (healthCheck connID c [TickerC (Some e), TickerC (Some e), TickerC None]),
          counter_of (healthCheck connID c [TickerC (Some e), TickerC (Some e), TickerC None,
                                            TickerC (Some e)]),
          counter_of (healthCheck connID c [TickerC (Some e), TickerC (Some e), TickerC None,
                                            TickerC (Some e), TickerC (Some e)]),
          counter_of (healthCheck connID c [TickerC (Some e), TickerC (Some e), TickerC None,
                                            TickerC (Some e), TickerC (Some e), TickerC (Some e)])]
         = [1, 2, 0, 1, 2, 3]"
    and "closes (trace_of (healthCheck connID c [TickerC (Some e), TickerC (Some e), TickerC None,
                                            TickerC (Some e), TickerC (Some e)]))
         = closes (trace c)"
    and "fst (healthCheck connID c [TickerC (Some e), TickerC (Some e), TickerC None,
                                            TickerC (Some e), TickerC (Some e)]) = Waiting"
    and "closes (trace_of (healthCheck connID c ([TickerC (Some e), TickerC (Some e), TickerC None,
                                            TickerC (Some e), TickerC (Some e), TickerC (Some e)] @ later)))
         = closes (trace c) @ [[LogField ''reason'' ''health check failure'', ErrField e]]"
    and "fst (healthCheck connID c ([TickerC (Some e), TickerC (Some e), TickerC None,
                                            TickerC (Some e), TickerC (Some e), TickerC (Some e)] @ later)) = Returned"
    and "pings (trace_of (healthCheck connID c ([TickerC (Some e), TickerC (Some e), TickerC None,
                                            TickerC (Some e), TickerC (Some e), TickerC (Some e)] @ later)))
         = pings (trace c) @ map (\<lambda>k. (k, Timeout (HealthChecks (opts c)))) [0, 1, 2, 3, 4, 5]"
  using assms
  by (simp_all add: healthCheck_def enabled_def time_NewTicker_def Let_def enter_def go_defer_def
      iteration_def context_WithTimeout_def ping_def on_conn_def connectionError_def close_def
      record_event_def return_from_def counter_of_def trace_of_def word_sle_eq
      cancel_def ticker_Stop_def closes_append pings_append)


text \<open>
  C3: take wake-ups \<open>ws\<close> that the loop processes to the last one, that is, it was still
  waiting after all but the last. Then \<^verbatim>\<open>consecutiveFailures\<close>, read as a signed integer,
  is the number of failures (sentinel aside) since the most recent successful probe, or
  since the start. This holds with no overflow, whatever the threshold, and also in the
  iteration that closes the connection. A successful probe leaves the counter at 0. With
  \<^verbatim>\<open>FailuresToClose = 3\<close> and the probes fail, fail, success, fail, fail, fail the counter
  goes 1, 2, 0, 1, 2, 3; \<^verbatim>\<open>close\<close> has not been called after the fifth probe and has been
  called once after the sixth, and stays called once whatever comes \<open>later\<close>; six probes
  were made.
\<close>

theorem counter_is_failure_streak:
  assumes en: "enabled (HealthChecks (opts c))"
  shows "(fst (healthCheck connID c (butlast ws)) = Waiting \<longrightarrow>
            sint (counter_of (healthCheck connID c ws)) = int (failure_streak ws))
       \<and> (fst (healthCheck connID c ws) = Waiting \<longrightarrow>
            counter_of (healthCheck connID c (ws @ [TickerC None])) = 0)
       \<and> (FailuresToClose (HealthChecks (opts c)) = 3 \<and> e \<noteq> ErrInvalidConnectionState \<longrightarrow>
            [counter_of (healthCheck connID c [TickerC (Some e)]),
             counter_of (healthCheck connID c [TickerC (Some e), TickerC (Some e)]),
             counter_of (healthCheck connID c [TickerC (Some e), TickerC (Some e), TickerC None]),
             counter_of (healthCheck connID c [TickerC (Some e), TickerC (Some e), TickerC None,
                                               TickerC (Some e)]),
             counter_of (healthCheck connID c [TickerC (Some e), TickerC (Some e), TickerC None,
                                               TickerC (Some e), TickerC (Some e)]),
             counter_of (healthCheck connID c [TickerC (Some e), TickerC (Some e), TickerC None,
                                               TickerC (Some e), TickerC (Some e),
                                               TickerC (Some e)])]
              = [1, 2, 0, 1, 2, 3]
            \<and> closes (trace_of (healthCheck connID c
                    [TickerC (Some e), TickerC (Some e), TickerC None,
                     TickerC (Some e), TickerC (Some e)]))
                = closes (trace c)
            \<and> closes (trace_of (healthCheck connID c
                    ([TickerC (Some e), TickerC (Some e), TickerC None,
                      TickerC (Some e), TickerC (Some e), TickerC (Some e)] @ later)))
                = closes (trace c) @ [[LogField ''reason'' ''health check failure'', ErrField e]]
            \<and> pings (trace_of (healthCheck connID c
                    ([TickerC (Some e), TickerC (Some e), TickerC None,
                      TickerC (Some e), TickerC (Some e), TickerC (Some e)] @ later)))
                = pings (trace c)
                  @ map (\<lambda>k. (k, Timeout (HealthChecks (opts c)))) [0, 1, 2, 3, 4, 5])"
    (is "_ \<and> _ \<and> (?H \<longrightarrow> ?S)")
proof -
  have streak: "fst (healthCheck connID c (butlast ws)) = Waiting \<longrightarrow>
            sint (counter_of (healthCheck connID c ws)) = int (failure_streak ws)"
  proof
    assume W: "fst (healthCheck connID c (butlast ws)) = Waiting"
    show "sint (counter_of (healthCheck connID c ws)) = int (failure_streak ws)"
    proof (cases "ws = []")
      case True
      with W waiting_invariant [of connID c "[]"] show ?thesis
        by (simp add: waiting_inv_def counter_of_def)
    next
      case False
      then have "ws = butlast ws @ [last ws]" by simp
      with counter_after_step [OF W, of "last ws"] show ?thesis by simp
    qed
  qed
  have reset: "fst (healthCheck connID c ws) = Waiting \<longrightarrow>
            counter_of (healthCheck connID c (ws @ [TickerC None])) = 0"
    by (simp add: healthCheck_step iteration_success counter_of_def)
  have scenario: "?H \<longrightarrow> ?S"
  proof
    assume ?H
    then have thr: "FailuresToClose (HealthChecks (opts c)) = 3"
      and e: "e \<noteq> ErrInvalidConnectionState"
      by simp_all
    from scenario_three [OF en thr e] show ?S by simp
  qed
  from streak reset scenario show ?thesis by simp
qed

text \<open>Runs with threshold 3: a streak after a success, a sentinel after a streak, a reset, the scenario.\<close>

theorem counter_is_failure_streak_witness:
  "sint (counter_of (healthCheck 7 conn3 [boom, TickerC None, boom, boom])) = 2
   \<and> sint (counter_of (healthCheck 7 conn3
              [boom, boom, TickerC (Some ErrInvalidConnectionState)])) = 2
   \<and> counter_of (healthCheck 7 conn3 [boom, boom, TickerC None]) = 0
   \<and> closes (trace_of (healthCheck 7 conn3
              [boom, boom, TickerC None, boom, boom, boom, boom, TickerC None]))
       = [[LogField ''reason'' ''health check failure'', ErrField (ErrOther ''timeout'')]]"
proof -
  have en: "enabled (HealthChecks (opts conn3))"
    by (simp add: conn3_def enabled_def word_sless_alt)
  have w1: "fst (healthCheck 7 conn3 (butlast [boom, TickerC None, boom, boom])) = Waiting"
    by code_simp
  have w2: "fst (healthCheck 7 conn3
                  (butlast [boom, boom, TickerC (Some ErrInvalidConnectionState)])) = Waiting"
    by code_simp
  have w3: "fst (healthCheck 7 conn3 [boom, boom]) = Waiting"
    by code_simp
  have thr: "FailuresToClose (HealthChecks (opts conn3)) = 3
             \<and> ErrOther ''timeout'' \<noteq> ErrInvalidConnectionState"
    by (simp add: conn3_def)
  have s1: "failure_streak [boom, TickerC None, boom, boom] = 2"
    by (simp add: failure_streak_def boom_def)
  have s2: "failure_streak [boom, boom, TickerC (Some ErrInvalidConnectionState)] = 2"
    by (simp add: failure_streak_def boom_def)
  have t: "trace conn3 = []" by (simp add: conn3_def)
  from counter_is_failure_streak [OF en, of 7 "[boom, TickerC None, boom, boom]"] w1 s1
  have a: "sint (counter_of (healthCheck 7 conn3 [boom, TickerC None, boom, boom])) = 2"
    by simp
  from counter_is_failure_streak
         [OF en, of 7 "[boom, boom, TickerC (Some ErrInvalidConnectionState)]"] w2 s2
  have b: "sint (counter_of (healthCheck 7 conn3
              [boom, boom, TickerC (Some ErrInvalidConnectionState)])) = 2"
    by simp
  from counter_is_failure_streak [OF en, of 7 "[boom, boom]"] w3
  have c: "counter_of (healthCheck 7 conn3 [boom, boom, TickerC None]) = 0"
    by simp
  from counter_is_failure_streak
         [OF en, of 7 "[]" "ErrOther ''timeout''" "[boom, TickerC None]"] thr t
  have d: "closes (trace_of (healthCheck 7 conn3
              [boom, boom, TickerC None, boom, boom, boom, boom, TickerC None]))
       = [[LogField ''reason'' ''health check failure'', ErrField (ErrOther ''timeout'')]]"
    by (simp add: boom_def)
  from a b c d show ?thesis by simp
qed

subsection \<open>Resources\<close>

lemma successes_keep_waiting:
  assumes "enabled (HealthChecks (opts c))"
  shows "fst (healthCheck connID c (replicate n (TickerC None))) = Waiting"
proof (induction n)
  case 0
  from assms show ?case by (simp add: healthCheck_Nil)
next
  case (Suc n)
  have "replicate (Suc n) (TickerC None) = replicate n (TickerC None) @ [TickerC None]"
    by (simp add: replicate_append_same)
  with Suc show ?case by (simp add: healthCheck_step iteration_success)
qed

text \<open>
  C1: the code does not release a probe's context before the next wait. \<^verbatim>\<open>defer cancel()\<close>
  stands in the body of the \<^verbatim>\<open>for\<close> loop, so every \<^verbatim>\<open>cancel\<close> waits on the frame's stack
  until \<^verbatim>\<open>healthCheck\<close> returns. After \<open>n\<close> successful probes the goroutine waits in the
  \<^verbatim>\<open>select\<close> with all \<open>n\<close> contexts uncancelled; and at every wait point the number of
  uncancelled contexts is the number of probes made so far, not zero; they are cancelled
  together when the function returns. (The expiry of a
  context by its own timer is real time and is not part of the model: \<open>live_ctxs\<close> counts
  the contexts whose \<^verbatim>\<open>cancel\<close> was not called.)
\<close>

theorem contexts_accumulate_while_waiting:
  assumes "enabled (HealthChecks (opts c))"
  shows "fst (healthCheck connID c (replicate n (TickerC None))) = Waiting
       \<and> live_ctxs (snd (healthCheck connID c (replicate n (TickerC None)))) = rev [0..<n]
       \<and> (fst (healthCheck connID c ws) = Waiting \<longrightarrow>
            length (live_ctxs (snd (healthCheck connID c ws))) = length ws)
       \<and> (fst (healthCheck connID c ws) = Returned \<longrightarrow>
            live_ctxs (snd (healthCheck connID c ws)) = [])"
proof -
  have W: "fst (healthCheck connID c (replicate n (TickerC None))) = Waiting"
    using assms by (rule successes_keep_waiting)
  from waiting_invariant [OF W]
  have "live_ctxs (snd (healthCheck connID c (replicate n (TickerC None)))) = rev [0..<n]"
    by (simp add: waiting_inv_def)
  moreover have "fst (healthCheck connID c ws) = Waiting \<longrightarrow>
            length (live_ctxs (snd (healthCheck connID c ws))) = length ws"
    using waiting_invariant [of connID c ws] by (simp add: waiting_inv_def)
  moreover have "fst (healthCheck connID c ws) = Returned \<longrightarrow>
            live_ctxs (snd (healthCheck connID c ws)) = []"
    using returned_frame(2) [of connID c ws] by simp
  ultimately show ?thesis using W by simp
qed

text \<open>Two successful probes, on a connection with health checks every five seconds.\<close>

theorem contexts_accumulate_witness:
  "fst (healthCheck 7 conn3 [TickerC None, TickerC None]) = Waiting
   \<and> live_ctxs (snd (healthCheck 7 conn3 [TickerC None, TickerC None])) = [1, 0]"
proof -
  have en: "enabled (HealthChecks (opts conn3))"
    by (simp add: conn3_def enabled_def word_sless_alt)
  have "replicate 2 (TickerC None) = [TickerC None, TickerC None]"
    by (simp add: numeral_2_eq_2)
  moreover have "rev [0..<2] = [1, 0::nat]"
    by (simp add: numeral_2_eq_2)
  ultimately show ?thesis
    using contexts_accumulate_while_waiting [OF en, of 7 2 "[]"] by simp
qed

text \<open>
  C8: \<^verbatim>\<open>defer ticker.Stop()\<close> is the first deferred call, so whenever \<^verbatim>\<open>healthCheck\<close> has
  returned the ticker is stopped. A return happens in an iteration entered from the
  \<^verbatim>\<open>select\<close>, in one of three ways: the quit channel, the sentinel error, or a failure that
  brings the counter to the threshold.
\<close>

theorem ticker_stopped_on_return:
  assumes "fst (healthCheck connID c ws) = Returned"
  shows "ticker (snd (healthCheck connID c ws)) = TickerStopped
       \<and> (\<exists>pre w post. ws = pre @ w # post
            \<and> fst (healthCheck connID c pre) = Waiting
            \<and> (w = HealthCheckQuit
                \<or> w = TickerC (Some ErrInvalidConnectionState)
                \<or> (\<exists>e. w = TickerC (Some e) \<and> e \<noteq> ErrInvalidConnectionState
                      \<and> FailuresToClose (HealthChecks (opts c))
                            \<le>s counter_of (healthCheck connID c pre) + 1)))"
proof -
  from returned_exit [OF assms] obtain pre w post where
    ws: "ws = pre @ w # post"
    and W: "fst (healthCheck connID c pre) = Waiting"
    and R: "fst (iteration (HealthChecks (opts c)) (snd (healthCheck connID c pre)) w) = Returned"
    by blast
  from iteration_Returned_cases [OF R]
  have "w = HealthCheckQuit
        \<or> w = TickerC (Some ErrInvalidConnectionState)
        \<or> (\<exists>e. w = TickerC (Some e) \<and> e \<noteq> ErrInvalidConnectionState
              \<and> FailuresToClose (HealthChecks (opts c))
                    \<le>s counter_of (healthCheck connID c pre) + 1)"
    by (auto simp: counter_of_def)
  with ws W returned_frame(1) [OF assms] show ?thesis by blast
qed

text \<open>One run for each of the three exits.\<close>

theorem ticker_stopped_witness:
  "ticker (snd (healthCheck 7 conn3 [TickerC None, HealthCheckQuit])) = TickerStopped
   \<and> ticker (snd (healthCheck 7 conn3 [boom, TickerC (Some ErrInvalidConnectionState)]))
       = TickerStopped
   \<and> ticker (snd (healthCheck 7 conn3 [boom, boom, boom])) = TickerStopped"
proof -
  have 1: "fst (healthCheck 7 conn3 [TickerC None, HealthCheckQuit]) = Returned"
    by code_simp
  have 2: "fst (healthCheck 7 conn3 [boom, TickerC (Some ErrInvalidConnectionState)]) = Returned"
    by code_simp
  have 3: "fst (healthCheck 7 conn3 [boom, boom, boom]) = Returned"
    by code_simp
  from ticker_stopped_on_return [OF 1] ticker_stopped_on_return [OF 2]
    ticker_stopped_on_return [OF 3]
  show ?thesis by simp
qed

subsection \<open>The sentinel error\<close>

lemma loop_sentinel:
  "loop hc_opts s (TickerC (Some ErrInvalidConnectionState) # ws)
     = return_from (after_ping hc_opts s)"
  by (simp add: iteration_sentinel) (simp add: return_from_def)

text \<open>
  C4: from any frame \<open>s\<close> at the head of the loop, a tick whose probe ends in
  \<^verbatim>\<open>ErrInvalidConnectionState\<close> makes the goroutine return at once, whatever wake-ups would
  follow: the counter is as it was, the trace gained the probe and nothing else, so no
  error was reported through \<^verbatim>\<open>connectionError\<close> and \<^verbatim>\<open>close\<close> was not called.
\<close>

theorem sentinel_returns_quietly:
  "fst (loop hc_opts s (TickerC (Some ErrInvalidConnectionState) # ws)) = Returned
   \<and> consecutiveFailures (snd (loop hc_opts s (TickerC (Some ErrInvalidConnectionState) # ws)))
       = consecutiveFailures s
   \<and> trace (conn (snd (loop hc_opts s (TickerC (Some ErrInvalidConnectionState) # ws))))
       = trace (conn s) @ [Ping (ctx_count s) (Timeout hc_opts)]
   \<and> reports (trace (conn (snd (loop hc_opts s (TickerC (Some ErrInvalidConnectionState) # ws)))))
       = reports (trace (conn s))
   \<and> closes (trace (conn (snd (loop hc_opts s (TickerC (Some ErrInvalidConnectionState) # ws)))))
       = closes (trace (conn s))"
  by (simp add: loop_sentinel return_from_fields after_ping_fields record_event_def
      reports_append closes_append del: loop.simps)

subsection \<open>Options as stored\<close>

lemma successes_counter:
  assumes "enabled (HealthChecks (opts c))"
  shows "counter_of (healthCheck connID c (replicate n (TickerC None))) = 0"
proof (cases n)
  case 0
  with assms show ?thesis
    by (simp add: counter_of_def healthCheck_def enabled_def time_NewTicker_def Let_def)
next
  case (Suc m)
  have "replicate (Suc m) (TickerC None) = replicate m (TickerC None) @ [TickerC None]"
    by (simp add: replicate_append_same)
  with Suc successes_keep_waiting [OF assms, of connID m] show ?thesis
    by (simp add: healthCheck_step iteration_success counter_of_def)
qed

lemma all_successes_replicate:
  assumes "list_all (\<lambda>w. w = TickerC None) pre"
  shows "pre = replicate (length pre) (TickerC None)"
  using assms by (induction pre) simp_all

text \<open>
  C10: \<^verbatim>\<open>healthCheck\<close> takes \<^verbatim>\<open>c.opts.HealthChecks\<close> as stored. With a stored
  \<^verbatim>\<open>FailuresToClose\<close> of zero or less, the first failure that is not the sentinel, after any
  number of successful probes, closes the connection with the counter at 1. Had
  \<^verbatim>\<open>withDefaults\<close> been applied to a stored zero, the same run would still be waiting with
  no close.
\<close>

theorem stored_threshold_unresolved:
  assumes en: "enabled (HealthChecks (opts c))"
    and thr: "FailuresToClose (HealthChecks (opts c)) \<le>s 0"
    and pre: "list_all (\<lambda>w. w = TickerC None) pre"
    and e: "e \<noteq> ErrInvalidConnectionState"
  shows "fst (healthCheck connID c (pre @ TickerC (Some e) # post)) = Returned
       \<and> closes (trace_of (healthCheck connID c (pre @ TickerC (Some e) # post)))
           = closes (trace c) @ [[LogField ''reason'' ''health check failure'', ErrField e]]
       \<and> counter_of (healthCheck connID c (pre @ TickerC (Some e) # post)) = 1
       \<and> (FailuresToClose (HealthChecks (opts c)) = 0 \<longrightarrow>
            fst (healthCheck connID
                   (c\<lparr>opts := \<lparr>HealthChecks = withDefaults (HealthChecks (opts c))\<rparr>\<rparr>)
                   (pre @ [TickerC (Some e)])) = Waiting
            \<and> closes (trace_of (healthCheck connID
                   (c\<lparr>opts := \<lparr>HealthChecks = withDefaults (HealthChecks (opts c))\<rparr>\<rparr>)
                   (pre @ [TickerC (Some e)]))) = closes (trace c))"
proof -
  have rep: "pre = replicate (length pre) (TickerC None)"
    using pre by (rule all_successes_replicate)
  have W: "fst (healthCheck connID c pre) = Waiting"
    using successes_keep_waiting [OF en, of connID "length pre"] rep by simp
  have z: "counter_of (healthCheck connID c pre) = 0"
    using successes_counter [OF en, of connID "length pre"] rep by simp
  have breach: "FailuresToClose (HealthChecks (opts c))
                  \<le>s counter_of (healthCheck connID c pre) + 1"
    using thr by (simp add: z word_sle_eq)
  note run = closed_run [OF W e breach, of post]
  have closing: "fst (healthCheck connID c (pre @ TickerC (Some e) # post)) = Returned
       \<and> closes (trace_of (healthCheck connID c (pre @ TickerC (Some e) # post)))
           = closes (trace c) @ [[LogField ''reason'' ''health check failure'', ErrField e]]
       \<and> counter_of (healthCheck connID c (pre @ TickerC (Some e) # post)) = 1"
    using run(2,4,5) z by simp
  have resolved: "fst (healthCheck connID
                   (c\<lparr>opts := \<lparr>HealthChecks = withDefaults (HealthChecks (opts c))\<rparr>\<rparr>)
                   (pre @ [TickerC (Some e)])) = Waiting
            \<and> closes (trace_of (healthCheck connID
                   (c\<lparr>opts := \<lparr>HealthChecks = withDefaults (HealthChecks (opts c))\<rparr>\<rparr>)
                   (pre @ [TickerC (Some e)]))) = closes (trace c)"
    if zero: "FailuresToClose (HealthChecks (opts c)) = 0"
  proof -
    let ?c = "c\<lparr>opts := \<lparr>HealthChecks = withDefaults (HealthChecks (opts c))\<rparr>\<rparr>"
    have five: "FailuresToClose (HealthChecks (opts ?c)) = 5"
      using zero by (simp add: withDefaults_def Let_def defaultHealthCheckFailuresToClose_def)
    have en': "enabled (HealthChecks (opts ?c))"
      using en by (simp add: enabled_def withDefaults_def Let_def)
    have W': "fst (healthCheck connID ?c pre) = Waiting"
      using successes_keep_waiting [OF en', of connID "length pre"] rep by simp
    have z': "consecutiveFailures (snd (healthCheck connID ?c pre)) = 0"
      using successes_counter [OF en', of connID "length pre"] rep
      by (simp add: counter_of_def)
    have step: "healthCheck connID ?c (pre @ [TickerC (Some e)])
                  = (Waiting, after_failure (HealthChecks (opts ?c)) e
                                (snd (healthCheck connID ?c pre)))"
      using e five z'
      by (simp add: healthCheck_step [OF W'] iteration_failure word_sle_eq)
    then have W2: "fst (healthCheck connID ?c (pre @ [TickerC (Some e)])) = Waiting"
      by simp
    from waiting_invariant [OF W2] W2 show ?thesis
      by (simp add: waiting_inv_def trace_of_def)
  qed
  from closing resolved show ?thesis by blast
qed

text \<open>A stored threshold of zero: one success, one timeout.\<close>

theorem stored_threshold_unresolved_witness:
  "closes (trace_of (healthCheck 7 conn0 [TickerC None, boom]))
     = [[LogField ''reason'' ''health check failure'', ErrField (ErrOther ''timeout'')]]
   \<and> closes (trace_of (healthCheck 7
        (conn0\<lparr>opts := \<lparr>HealthChecks = withDefaults (HealthChecks (opts conn0))\<rparr>\<rparr>)
        [TickerC None, boom])) = []"
proof -
  have en: "enabled (HealthChecks (opts conn0))"
    by (simp add: conn0_def enabled_def word_sless_alt)
  have thr: "FailuresToClose (HealthChecks (opts conn0)) \<le>s 0"
    by (simp add: conn0_def)
  have pre: "list_all (\<lambda>w. w = TickerC None) [TickerC None]"
    by simp
  have e: "ErrOther ''timeout'' \<noteq> ErrInvalidConnectionState"
    by simp
  have z: "FailuresToClose (HealthChecks (opts conn0)) = 0" "trace conn0 = []"
    by (simp_all add: conn0_def)
  from stored_threshold_unresolved [OF en thr pre e, of 7 "[]"] z
  show ?thesis by (simp add: boom_def)
qed

subsection \<open>The connection identifier\<close>

text \<open>
  C9: \<^verbatim>\<open>connID\<close> is not used by \<^verbatim>\<open>healthCheck\<close>. For two identifiers and the same connection
  and wake-ups, the runs end in the same place with the same frame and the same trace
  (probes, reports, closes).
\<close>

theorem healthCheck_connID_irrelevant:
  "healthCheck connID c ws = healthCheck connID' c ws"
  by (simp add: healthCheck_def)

section \<open>Properties of stophealthCheck\<close>

lemma stophealthCheck_first:
  assumes "\<not> healthCheckStopped c" "healthCheckQuit c = ChanOpen"
  shows "stophealthCheck c =
           Some (c\<lparr>healthCheckStopped := True, healthCheckQuit := ChanClosed,
                   trace := trace c @ [LogDebug ''Stopping health checks.'', CloseQuit]\<rparr>)"
  using assms by (simp add: stophealthCheck_def Swap_def close_chan_def record_event_def)

lemma stophealthCheck_again:
  assumes "healthCheckStopped c"
  shows "stophealthCheck c = Some c"
  using assms by (simp add: stophealthCheck_def Swap_def)

lemma stop_times_stopped:
  assumes "healthCheckStopped c"
  shows "stop_times n c = Some c"
  using assms by (induction n) (simp_all add: stophealthCheck_again)

lemma stophealthCheck_sequential:
  assumes "\<not> healthCheckStopped c" and "healthCheckQuit c = ChanOpen" and "1 \<le> n"
  shows "\<exists>c1. stophealthCheck c = Some c1
            \<and> stop_times n c = Some c1
            \<and> stophealthCheck c1 = Some c1
            \<and> healthCheckStopped c1
            \<and> healthCheckQuit c1 = ChanClosed
            \<and> trace c1 = trace c @ [LogDebug ''Stopping health checks.'', CloseQuit]
            \<and> quit_closes (trace c1) = Suc (quit_closes (trace c))
            \<and> closes (trace c1) = closes (trace c)
            \<and> opts c1 = opts c"
proof -
  let ?c1 = "c\<lparr>healthCheckStopped := True, healthCheckQuit := ChanClosed,
               trace := trace c @ [LogDebug ''Stopping health checks.'', CloseQuit]\<rparr>"
  have first: "stophealthCheck c = Some ?c1"
    using assms(1,2) by (rule stophealthCheck_first)
  from assms(3) obtain m where n: "n = Suc m" by (cases n) simp_all
  have "stop_times n c = stop_times m ?c1"
    by (simp add: n first)
  also have "\<dots> = Some ?c1"
    by (rule stop_times_stopped) simp
  finally have many: "stop_times n c = Some ?c1" .
  have again: "stophealthCheck ?c1 = Some ?c1"
    by (rule stophealthCheck_again) simp
  show ?thesis
    using first many again
    by (intro exI [of _ ?c1]) (simp add: quit_closes_append closes_append)
qed

subsection \<open>Interleaved calls\<close>

text \<open>One call, stepped to its end, is \<^verbatim>\<open>stophealthCheck\<close>.\<close>

lemma interleave_one_call:
  "interleave [0, 0, 0] (c, [AtSwap]) = map_option (\<lambda>c'. (c', [StopDone])) (stophealthCheck c)"
  by (simp add: stop_step_def stophealthCheck_def Swap_def close_chan_def
      split: chan_state.splits)

lemma in_flight_update:
  assumes "i < length pcs"
  shows "in_flight (pcs[i := p]) + (if pcs ! i = AtLog \<or> pcs ! i = AtClose then 1 else 0)
           = in_flight pcs + (if p = AtLog \<or> p = AtClose then 1 else 0)"
  using assms
proof (induction pcs arbitrary: i)
  case Nil
  then show ?case by simp
next
  case (Cons q pcs)
  then show ?case by (cases i) (auto simp: in_flight_def)
qed

lemma in_flight_all_AtSwap:
  assumes "list_all (\<lambda>p. p = AtSwap) pcs"
  shows "in_flight pcs = 0"
  using assms by (induction pcs) (simp_all add: in_flight_def)

lemma in_flight_zero_nth:
  assumes "in_flight pcs = 0" "i < length pcs"
  shows "pcs ! i \<noteq> AtLog \<and> pcs ! i \<noteq> AtClose"
  using assms
proof (induction pcs arbitrary: i)
  case Nil
  then show ?case by simp
next
  case (Cons q pcs)
  then show ?case by (cases i) (auto simp: in_flight_def split: if_splits)
qed

lemma in_flight_all_done:
  assumes "list_all (\<lambda>p. p = StopDone) pcs"
  shows "in_flight pcs = 0"
  using assms by (induction pcs) (simp_all add: in_flight_def)

lemma stop_step_inv:
  assumes inv: "stop_inv c0 (c, pcs)" and i: "i < length pcs"
  shows "\<exists>c' pc'. stop_step c (pcs ! i) = Some (c', pc') \<and> stop_inv c0 (c', pcs[i := pc'])"
proof (cases "pcs ! i")
  case AtSwap
  show ?thesis
  proof (cases "healthCheckStopped c")
    case False
    with inv have all: "list_all (\<lambda>p. p = AtSwap) pcs" by (simp add: stop_inv_def)
    from in_flight_update [OF i, of AtLog] AtSwap in_flight_all_AtSwap [OF all]
    have "in_flight (pcs[i := AtLog]) = 1" by simp
    with inv False AtSwap show ?thesis
      by (simp add: stop_step_def Swap_def stop_inv_def)
  next
    case True
    from in_flight_update [OF i, of StopDone] AtSwap
    have "in_flight (pcs[i := StopDone]) = in_flight pcs" by simp
    with inv True AtSwap show ?thesis
      by (simp add: stop_step_def Swap_def stop_inv_def)
  qed
next
  case AtLog
  from in_flight_update [OF i, of AtClose] AtLog
  have same: "in_flight (pcs[i := AtClose]) = in_flight pcs" by simp
  have "in_flight pcs \<noteq> 0"
    using in_flight_zero_nth [OF _ i] AtLog by auto
  with inv in_flight_all_AtSwap [of pcs] have "healthCheckStopped c"
    by (auto simp: stop_inv_def split: if_splits)
  with inv AtLog same show ?thesis
    by (simp add: stop_step_def stop_inv_def record_event_def closes_append quit_closes_append)
next
  case AtClose
  from in_flight_update [OF i, of StopDone] AtClose
  have less: "in_flight (pcs[i := StopDone]) + 1 = in_flight pcs" by simp
  then have nz: "in_flight pcs \<noteq> 0" by simp
  with inv in_flight_all_AtSwap [of pcs]
  have st: "healthCheckStopped c" and op: "healthCheckQuit c = ChanOpen"
    and one: "in_flight pcs = 1"
    by (auto simp: stop_inv_def split: if_splits)
  from less one have "in_flight (pcs[i := StopDone]) = 0" by simp
  with inv st op AtClose show ?thesis
    by (simp add: stop_step_def stop_inv_def close_chan_def record_event_def closes_append
        quit_closes_append)
next
  case StopDone
  then have "pcs[i := StopDone] = pcs" by (metis list_update_id)
  with inv StopDone show ?thesis by (simp add: stop_step_def)
qed

lemma interleave_inv:
  assumes "stop_inv c0 (c, pcs)"
  shows "\<exists>c' pcs'. interleave sched (c, pcs) = Some (c', pcs')
           \<and> stop_inv c0 (c', pcs') \<and> length pcs' = length pcs"
  using assms
proof (induction sched arbitrary: c pcs)
  case Nil
  then show ?case by simp
next
  case (Cons i sched)
  show ?case
  proof (cases "i < length pcs")
    case False
    with Cons show ?thesis by simp
  next
    case True
    from stop_step_inv [OF Cons.prems True] obtain c1 pc1 where
      step: "stop_step c (pcs ! i) = Some (c1, pc1)" and inv1: "stop_inv c0 (c1, pcs[i := pc1])"
      by blast
    from Cons.IH [OF inv1] obtain c' pcs' where
      "interleave sched (c1, pcs[i := pc1]) = Some (c', pcs')"
      "stop_inv c0 (c', pcs')" "length pcs' = length (pcs[i := pc1])"
      by blast
    with True step show ?thesis by simp
  qed
qed

lemma concurrent_stops_close_once:
  assumes "\<not> healthCheckStopped c" and "healthCheckQuit c = ChanOpen"
  shows "\<exists>c' pcs'. interleave sched (c, replicate n AtSwap) = Some (c', pcs')
           \<and> length pcs' = n
           \<and> quit_closes (trace c') \<le> Suc (quit_closes (trace c))
           \<and> closes (trace c') = closes (trace c)
           \<and> (0 < n \<and> list_all (\<lambda>p. p = StopDone) pcs' \<longrightarrow>
                healthCheckStopped c' \<and> healthCheckQuit c' = ChanClosed
                \<and> quit_closes (trace c') = Suc (quit_closes (trace c)))"
proof -
  have "stop_inv c (c, replicate n AtSwap)"
    using assms by (simp add: stop_inv_def list_all_length)
  from interleave_inv [OF this, of sched] obtain c' pcs' where
    run: "interleave sched (c, replicate n AtSwap) = Some (c', pcs')"
    and inv: "stop_inv c (c', pcs')" and len: "length pcs' = n"
    by auto
  have le: "quit_closes (trace c') \<le> Suc (quit_closes (trace c))"
    and cl: "closes (trace c') = closes (trace c)"
    using inv by (auto simp: stop_inv_def split: if_splits)
  have fin: "healthCheckStopped c' \<and> healthCheckQuit c' = ChanClosed
                \<and> quit_closes (trace c') = Suc (quit_closes (trace c))"
    if pos: "0 < n" and alld: "list_all (\<lambda>p. p = StopDone) pcs'"
  proof -
    from pos len obtain p ps where pcs': "pcs' = p # ps" by (cases pcs') auto
    with alld have "\<not> list_all (\<lambda>p. p = AtSwap) pcs'" by simp
    moreover have "in_flight pcs' = 0" using alld by (rule in_flight_all_done)
    ultimately show ?thesis
      using inv by (cases "healthCheckQuit c'") (auto simp: stop_inv_def split: if_splits)
  qed
  from run len le cl fin show ?thesis by blast
qed

text \<open>
  C5: on a connection whose health checks are not stopped yet (flag false, quit channel
  open), \<open>n \<ge> 1\<close> calls of \<^verbatim>\<open>stophealthCheck\<close> in a row end, without a panic, in the
  state the first call left: the flag went from false to true once, the quit channel was
  closed once, the debug line was logged once, and \<^verbatim>\<open>c.close\<close> was not called. A call on
  that state changes nothing. The same holds of \<open>n\<close> calls interleaved by any schedule:
  no step panics, the quit channel is closed at most once at any moment and exactly once
  when all calls have returned, and \<^verbatim>\<open>c.close\<close> is not called.
\<close>

theorem stophealthCheck_one_shot:
  assumes "\<not> healthCheckStopped c" and "healthCheckQuit c = ChanOpen" and "1 \<le> n"
  shows "(\<exists>c1. stophealthCheck c = Some c1
            \<and> stop_times n c = Some c1
            \<and> stophealthCheck c1 = Some c1
            \<and> healthCheckStopped c1
            \<and> healthCheckQuit c1 = ChanClosed
            \<and> trace c1 = trace c @ [LogDebug ''Stopping health checks.'', CloseQuit]
            \<and> quit_closes (trace c1) = Suc (quit_closes (trace c))
            \<and> closes (trace c1) = closes (trace c)
            \<and> opts c1 = opts c)
       \<and> (\<exists>c' pcs'. interleave sched (c, replicate n AtSwap) = Some (c', pcs')
            \<and> length pcs' = n
            \<and> quit_closes (trace c') \<le> Suc (quit_closes (trace c))
            \<and> closes (trace c') = closes (trace c)
            \<and> (list_all (\<lambda>p. p = StopDone) pcs' \<longrightarrow>
                  healthCheckStopped c' \<and> healthCheckQuit c' = ChanClosed
                  \<and> quit_closes (trace c') = Suc (quit_closes (trace c))))"
proof -
  from assms(3) have pos: "0 < n" by simp
  from concurrent_stops_close_once [OF assms(1,2), of sched n] pos
  have "\<exists>c' pcs'. interleave sched (c, replicate n AtSwap) = Some (c', pcs')
            \<and> length pcs' = n
            \<and> quit_closes (trace c') \<le> Suc (quit_closes (trace c))
            \<and> closes (trace c') = closes (trace c)
            \<and> (list_all (\<lambda>p. p = StopDone) pcs' \<longrightarrow>
                  healthCheckStopped c' \<and> healthCheckQuit c' = ChanClosed
                  \<and> quit_closes (trace c') = Suc (quit_closes (trace c)))"
    by simp
  with stophealthCheck_sequential [OF assms] show ?thesis by simp
qed

text \<open>Three calls on a fresh connection, in a row and interleaved.\<close>

theorem stophealthCheck_one_shot_witness:
  "stop_times 3 conn3 =
     Some (conn3\<lparr>healthCheckStopped := True, healthCheckQuit := ChanClosed,
                  trace := [LogDebug ''Stopping health checks.'', CloseQuit]\<rparr>)
   \<and> (\<exists>c'. interleave [0, 1, 1, 0, 2, 0, 2] (conn3, replicate 3 AtSwap)
              = Some (c', [StopDone, StopDone, StopDone])
          \<and> quit_closes (trace c') = 1)"
proof -
  have a: "\<not> healthCheckStopped conn3" by (simp add: conn3_def)
  have b: "healthCheckQuit conn3 = ChanOpen" by (simp add: conn3_def)
  have c: "(1::nat) \<le> 3" by simp
  have t: "quit_closes (trace conn3) = 0" by (simp add: conn3_def)
  note main = stophealthCheck_one_shot [OF a b c, of "[0, 1, 1, 0, 2, 0, 2]"]
  from main obtain c1 where
    "stop_times 3 conn3 = Some c1" "stophealthCheck conn3 = Some c1" by blast
  moreover have "stophealthCheck conn3 =
     Some (conn3\<lparr>healthCheckStopped := True, healthCheckQuit := ChanClosed,
                  trace := [LogDebug ''Stopping health checks.'', CloseQuit]\<rparr>)"
    by (simp add: stophealthCheck_def Swap_def close_chan_def record_event_def conn3_def)
  ultimately have seq: "stop_times 3 conn3 =
     Some (conn3\<lparr>healthCheckStopped := True, healthCheckQuit := ChanClosed,
                  trace := [LogDebug ''Stopping health checks.'', CloseQuit]\<rparr>)"
    by simp
  have r: "replicate 3 AtSwap = [AtSwap, AtSwap, AtSwap]" by (simp add: numeral_3_eq_3)
  have s: "snd (the (interleave [0, 1, 1, 0, 2, 0, 2] (conn3, replicate 3 AtSwap)))
             = [StopDone, StopDone, StopDone]"
    by (simp add: r stop_step_def Swap_def conn3_def close_chan_def record_event_def)
  from main obtain c' pcs' where
    run: "interleave [0, 1, 1, 0, 2, 0, 2] (conn3, replicate 3 AtSwap) = Some (c', pcs')"
    and fin: "list_all (\<lambda>p. p = StopDone) pcs' \<longrightarrow>
                quit_closes (trace c') = Suc (quit_closes (trace conn3))"
    by blast
  from run s have "pcs' = [StopDone, StopDone, StopDone]" by simp
  with run fin t have "\<exists>c'. interleave [0, 1, 1, 0, 2, 0, 2] (conn3, replicate 3 AtSwap)
              = Some (c', [StopDone, StopDone, StopDone])
          \<and> quit_closes (trace c') = 1"
    by simp
  with seq show ?thesis by simp
qed

end
